theory Spec2Isabelle
  imports Main "HOL-Library.Word"
begin

unbundle bit_operations_syntax

section \<open>HTTPU client: data model\<close>

text \<open>
  The development embeds \<^verbatim>\<open>httpu/httpu.go\<close>: the method \<^verbatim>\<open>HTTPUClient.Do\<close>, which
  encodes a request, sends it over every multicast-capable interface \<^verbatim>\<open>numSends\<close> times
  and then collects responses until a read times out.

  Everything \<^verbatim>\<open>Do\<close> obtains from the operating system and the network (address
  resolution, the clock, the interface list, the result of each socket call, the
  response parser of \<^verbatim>\<open>net/http\<close>) is a field of an environment record. Every call on
  the socket is recorded as an event, with its arguments and its result, in the trace
  of the run.
\<close>

type_synonym bytes = string

text \<open>
  Go's \<^verbatim>\<open>error\<close> values. \<open>NetError timeout temporary msg\<close> is an error that implements
  \<^verbatim>\<open>net.Error\<close>, with the results of its \<^verbatim>\<open>Timeout()\<close> and \<^verbatim>\<open>Temporary()\<close> methods;
  \<open>PlainError msg\<close> is any other error.
\<close>

datatype error = NetError bool bool string | PlainError string

fun errorText :: "error \<Rightarrow> string" where
  "errorText (NetError to tmp m) = m"
| "errorText (PlainError m) = m"

text \<open>\<^verbatim>\<open>net.Interface\<close>; \<^verbatim>\<open>net.Flags\<close> is an unsigned machine word.\<close>

record interface =
  Index :: int
  MTU :: int
  Name :: string
  HardwareAddr :: bytes
  Flags :: "64 word"

text \<open>\<^verbatim>\<open>net.FlagMulticast\<close> is the fifth flag of package \<^verbatim>\<open>net\<close>: \<^verbatim>\<open>1 << 4\<close>.\<close>

definition FlagMulticast :: "64 word" where
  "FlagMulticast = push_bit 4 1"

datatype udpaddr = UDPAddr string int

text \<open>
  The part of \<^verbatim>\<open>http.Request\<close> that \<^verbatim>\<open>Do\<close> reads. \<open>RequestURI\<close> is the value of
  \<^verbatim>\<open>req.URL.RequestURI()\<close>; \<open>Header\<close> lists each header name with its values, in the
  order in which the header container is written out. A request without a URL, on which
  the source dereferences a nil pointer, is not a value of this record.
\<close>

record request =
  Method :: string
  RequestURI :: string
  Header :: "(string \<times> string list) list"
  Host :: string

datatype response = Response int "(string \<times> string list) list" bytes

datatype read_result = ReadOK bytes | ReadErr error

text \<open>
  The environment of one call. The socket calls are indexed by the number of earlier
  calls of the same kind, so the transport may answer each call differently.
\<close>

record env =
  resolveUDPAddr :: "string \<Rightarrow> error + udpaddr"
  now :: int
  setDeadline :: "int \<Rightarrow> error option"
  interfaces :: "error + interface list"
  setMulticastInterface :: "nat \<Rightarrow> interface \<Rightarrow> error option"
  writeTo :: "nat \<Rightarrow> bytes \<Rightarrow> udpaddr \<Rightarrow> int \<times> error option"
  readFrom :: "nat \<Rightarrow> read_result"
  readResponse :: "bytes \<Rightarrow> request \<Rightarrow> error + response"

text \<open>
  Events of a run, in the order of the source: the deadline set on the socket, the
  outgoing interface bound, a datagram written (with the outgoing interface then in
  force, the payload, the destination and the result), a sleep (in milliseconds), a
  read (with the deadline then in force and its result), a line given to the logger.
\<close>

datatype event =
    EvSetDeadline int "error option"
  | EvSetMulticastInterface interface "error option"
  | EvWriteTo "interface option" bytes udpaddr int "error option"
  | EvSleep nat
  | EvReadFrom "int option" read_result
  | EvLog string

text \<open>
  \<^verbatim>\<open>HTTPUClient\<close>: the state of its socket that matters to \<^verbatim>\<open>Do\<close>. The mutex
  \<^verbatim>\<open>connLock\<close> is held for the whole of \<^verbatim>\<open>Do\<close>, so one call is modelled as one
  uninterrupted run.
\<close>

record httpuClient =
  connDeadline :: "int option"
  connMulticastIf :: "interface option"

record world =
  deadline :: "int option"
  multicastIf :: "interface option"
  trace :: "event list"
  nSetIf :: nat
  nWrites :: nat
  nReads :: nat

definition enter :: "httpuClient \<Rightarrow> world" where
  "enter httpu = \<lparr>deadline = connDeadline httpu, multicastIf = connMulticastIf httpu,
     trace = [], nSetIf = 0, nWrites = 0, nReads = 0\<rparr>"

definition emit :: "event \<Rightarrow> world \<Rightarrow> world" where
  "emit ev s = s\<lparr>trace := trace s @ [ev]\<rparr>"

section \<open>Encoding the request\<close>

definition CRLF :: string where
  "CRLF = [CHR 0x0D, CHR 0x0A]"

text \<open>\<^verbatim>\<open>%d\<close> of \<^verbatim>\<open>fmt\<close>: decimal digits, with a sign for a negative number.\<close>

fun decimalNat :: "nat \<Rightarrow> string" where
  "decimalNat n =
     (if n < 10 then [''0123456789'' ! n]
      else decimalNat (n div 10) @ [''0123456789'' ! (n mod 10)])"

definition decimal :: "int \<Rightarrow> string" where
  "decimal i = (if i < 0 then CHR ''-'' # decimalNat (nat (- i)) else decimalNat (nat i))"

text \<open>
  Writes into a \<^verbatim>\<open>bytes.Buffer\<close> append to it and return a nil error; the model keeps
  the error result, so that each error return of \<^verbatim>\<open>Do\<close> is a branch.
\<close>

definition buffer_Write :: "bytes \<Rightarrow> bytes \<Rightarrow> error + bytes" where
  "buffer_Write buf p = Inr (buf @ p)"

text \<open>\<^verbatim>\<open>fmt.Fprintf(&requestBuf, "%s %s HTTP/1.1\r\n", method, uri)\<close>\<close>

definition Fprintf_requestLine :: "bytes \<Rightarrow> string \<Rightarrow> string \<Rightarrow> error + bytes" where
  "Fprintf_requestLine buf method uri =
     buffer_Write buf (method @ '' '' @ uri @ '' HTTP/1.1'' @ CRLF)"

text \<open>
  Modelled from the spec: \<^verbatim>\<open>http.Header.Write\<close> belongs to Go's standard library and is
  not among the sources. The specification asks for the standard per-line
  \<^verbatim>\<open>Name: value\r\n\<close> convention for every entry, the values of one name in their order.
\<close>

definition headerLine :: "string \<Rightarrow> string \<Rightarrow> string" where
  "headerLine name v = name @ '': '' @ v @ CRLF"

definition headerLines :: "(string \<times> string list) list \<Rightarrow> string" where
  "headerLines h = concat (map (\<lambda>(name, vs). concat (map (headerLine name) vs)) h)"

definition header_Write :: "(string \<times> string list) list \<Rightarrow> bytes \<Rightarrow> error + bytes" where
  "header_Write h buf = buffer_Write buf (headerLines h)"

text \<open>Lines 54 to 67 of the source: the request buffer, or the first write error.\<close>

definition encodeRequest :: "request \<Rightarrow> error + bytes" where
  "encodeRequest req =
     (let method = (if Method req = [] then ''GET'' else Method req) in
      case Fprintf_requestLine [] method (RequestURI req) of
        Inl err \<Rightarrow> Inl err
      | Inr buf1 \<Rightarrow>
          (case header_Write (Header req) buf1 of
             Inl err \<Rightarrow> Inl err
           | Inr buf2 \<Rightarrow> buffer_Write buf2 CRLF))"

section \<open>Socket calls\<close>

definition conn_SetDeadline :: "env \<Rightarrow> int \<Rightarrow> world \<Rightarrow> error option \<times> world" where
  "conn_SetDeadline env t s =
     (let r = setDeadline env t;
          s1 = emit (EvSetDeadline t r) s
      in case r of
           Some err \<Rightarrow> (Some err, s1)
         | None \<Rightarrow> (None, s1\<lparr>deadline := Some t\<rparr>))"

definition conn_SetMulticastInterface :: "env \<Rightarrow> interface \<Rightarrow> world \<Rightarrow> error option \<times> world" where
  "conn_SetMulticastInterface env ifc s =
     (let r = setMulticastInterface env (nSetIf s) ifc;
          s1 = emit (EvSetMulticastInterface ifc r) (s\<lparr>nSetIf := Suc (nSetIf s)\<rparr>)
      in case r of
           Some err \<Rightarrow> (Some err, s1)
         | None \<Rightarrow> (None, s1\<lparr>multicastIf := Some ifc\<rparr>))"

definition conn_WriteTo :: "env \<Rightarrow> bytes \<Rightarrow> udpaddr \<Rightarrow> world \<Rightarrow> (int \<times> error option) \<times> world" where
  "conn_WriteTo env b dst s =
     (let r = writeTo env (nWrites s) b dst
      in (r, emit (EvWriteTo (multicastIf s) b dst (fst r) (snd r)) (s\<lparr>nWrites := Suc (nWrites s)\<rparr>)))"

definition conn_ReadFrom :: "env \<Rightarrow> world \<Rightarrow> read_result \<times> world" where
  "conn_ReadFrom env s =
     (let r = readFrom env (nReads s)
      in (r, emit (EvReadFrom (deadline s) r) (s\<lparr>nReads := Suc (nReads s)\<rparr>)))"

section \<open>Sending\<close>

definition shortWrite :: "int \<Rightarrow> int \<Rightarrow> error" where
  "shortWrite n len = PlainError (''httpu: wrote '' @ decimal n @ '' bytes rather than full ''
     @ decimal len @ '' in request'')"

text \<open>
  The inner loop, lines 86 to 103: one round over the interfaces. The result is the
  error that ends \<^verbatim>\<open>Do\<close>, or \<open>None\<close> when the round is complete.
\<close>

fun sendRound :: "env \<Rightarrow> bytes \<Rightarrow> udpaddr \<Rightarrow> interface list \<Rightarrow> world \<Rightarrow> error option \<times> world" where
  "sendRound env requestBuf destAddr [] s = (None, s)"
| "sendRound env requestBuf destAddr (ifc # ifs) s =
     (if Flags ifc AND FlagMulticast = 0 then sendRound env requestBuf destAddr ifs s
      else
        (case conn_SetMulticastInterface env ifc s of
           (Some err, s1) \<Rightarrow> (Some err, s1)
         | (None, s1) \<Rightarrow>
             (case conn_WriteTo env requestBuf destAddr s1 of
                ((n, Some err), s2) \<Rightarrow> (Some err, s2)
              | ((n, None), s2) \<Rightarrow>
                  if n < int (length requestBuf)
                  then (Some (shortWrite n (int (length requestBuf))), s2)
                  else sendRound env requestBuf destAddr ifs s2)))"

text \<open>The outer loop, lines 83 to 105: \<^verbatim>\<open>for i := 0; i < numSends; i++\<close>.\<close>

function sendLoop :: "env \<Rightarrow> bytes \<Rightarrow> udpaddr \<Rightarrow> interface list \<Rightarrow> int \<Rightarrow> int \<Rightarrow> world
    \<Rightarrow> error option \<times> world" where
  "sendLoop env requestBuf destAddr ifs i numSends s =
     (if i < numSends then
        (case sendRound env requestBuf destAddr ifs s of
           (Some err, s1) \<Rightarrow> (Some err, s1)
         | (None, s1) \<Rightarrow>
             sendLoop env requestBuf destAddr ifs (i + 1) numSends (emit (EvSleep 5) s1))
      else (None, s))"
  by pat_completeness auto
termination
  by (relation "measure (\<lambda>(env, requestBuf, destAddr, ifs, i, numSends, s). nat (numSends - i))") auto

text \<open>
  Lines 48 to 105: everything before the read loop. The result is the error with
  which \<^verbatim>\<open>Do\<close> returns, or \<open>None\<close> when all rounds are complete.
\<close>

definition sendPhase :: "env \<Rightarrow> httpuClient \<Rightarrow> request \<Rightarrow> int \<Rightarrow> int \<Rightarrow> error option \<times> world" where
  "sendPhase env httpu req timeout numSends =
     (let s0 = enter httpu in
      case encodeRequest req of
        Inl err \<Rightarrow> (Some err, s0)
      | Inr requestBuf \<Rightarrow>
          (case resolveUDPAddr env (Host req) of
             Inl err \<Rightarrow> (Some err, s0)
           | Inr destAddr \<Rightarrow>
               (case conn_SetDeadline env (now env + timeout) s0 of
                  (Some err, s1) \<Rightarrow> (Some err, s1)
                | (None, s1) \<Rightarrow>
                    (case interfaces env of
                       Inl err \<Rightarrow> (Some err, s1)
                     | Inr ifs \<Rightarrow> sendLoop env requestBuf destAddr ifs 0 numSends s1))))"

section \<open>Collecting\<close>

text \<open>
  \<^verbatim>\<open>log.Print\<close> with two operands, the first a string: the operands are joined without
  a space, and the \<^verbatim>\<open>%v\<close> stays in the line as it is.
\<close>

definition parseFailure :: "error \<Rightarrow> string" where
  "parseFailure err = ''httpu: error while parsing response: %v'' @ errorText err"

text \<open>
  The read loop, lines 110 to 135. It has no bound of its own, so the model counts the
  reads it may still make: with \<open>fuel\<close> reads left it makes at most that many, and \<open>None\<close>
  says that the loop is still reading when they are used up. \<open>Some (Inl err)\<close> is
  \<^verbatim>\<open>return nil, err\<close>, \<open>Some (Inr responses)\<close> is \<^verbatim>\<open>break\<close>. The buffer holds
  2048 bytes, so at most that many bytes of a datagram reach the parser.
\<close>

fun collect :: "env \<Rightarrow> nat \<Rightarrow> request \<Rightarrow> response list \<Rightarrow> world
    \<Rightarrow> (error + response list) option \<times> world" where
  "collect env 0 req responses s = (None, s)"
| "collect env (Suc fuel) req responses s =
     (case conn_ReadFrom env s of
        (ReadErr err, s1) \<Rightarrow>
          (case err of
             NetError timeout temporary msg \<Rightarrow>
               if timeout then (Some (Inr responses), s1)
               else if temporary then collect env fuel req responses (emit (EvSleep 10) s1)
               else (Some (Inl err), s1)
           | PlainError msg \<Rightarrow> (Some (Inl err), s1))
      | (ReadOK datagram, s1) \<Rightarrow>
          (case readResponse env (take 2048 datagram) req of
             Inl err \<Rightarrow> collect env fuel req responses (emit (EvLog (parseFailure err)) s1)
           | Inr response \<Rightarrow> collect env fuel req (responses @ [response]) s1))"

section \<open>Do\<close>

text \<open>
  The result is the pair that \<^verbatim>\<open>Do\<close> returns (a nil slice is the empty list), or \<open>None\<close>
  when the read loop has used up its reads, together with the final state. The \<^verbatim>\<open>err\<close>
  of the last line of the source is the variable of the function body, last assigned
  by \<^verbatim>\<open>net.Interfaces()\<close> and nil on every path that reaches the loop: the \<^verbatim>\<open>err\<close> of the
  loop body is a variable of its own.
\<close>

definition Do :: "env \<Rightarrow> nat \<Rightarrow> httpuClient \<Rightarrow> request \<Rightarrow> int \<Rightarrow> int
    \<Rightarrow> (response list \<times> error option) option \<times> world" where
  "Do env fuel httpu req timeout numSends =
     (case sendPhase env httpu req timeout numSends of
        (Some err, s) \<Rightarrow> (Some ([], Some err), s)
      | (None, s) \<Rightarrow>
          (case collect env fuel req [] s of
             (None, s') \<Rightarrow> (None, s')
           | (Some (Inl err), s') \<Rightarrow> (Some ([], Some err), s')
           | (Some (Inr responses), s') \<Rightarrow> (Some (responses, None), s')))"

section \<open>Reading a trace\<close>

text \<open>
  The definitions of this section look at a trace after the run: they are the
  vocabulary of the theorems, and the model above does not use them.
\<close>

text \<open>The test of line 87, for one interface.\<close>

definition multicastCapable :: "interface \<Rightarrow> bool" where
  "multicastCapable ifc = (Flags ifc AND FlagMulticast \<noteq> 0)"

text \<open>
  The three kinds of read error of lines 113 to 124: a timeout ends the loop, a
  temporary network error that is not a timeout is retried, every other error is
  returned.
\<close>

fun isTimeout :: "error \<Rightarrow> bool" where
  "isTimeout (NetError to tmp m) = to"
| "isTimeout (PlainError m) = False"

fun isRetried :: "error \<Rightarrow> bool" where
  "isRetried (NetError to tmp m) = (\<not> to \<and> tmp)"
| "isRetried (PlainError m) = False"

definition isFatal :: "error \<Rightarrow> bool" where
  "isFatal err = (\<not> isTimeout err \<and> \<not> isRetried err)"

text \<open>The error with which \<^verbatim>\<open>Do\<close> returns because of a call on the socket, if any.\<close>

fun callError :: "event \<Rightarrow> error option" where
  "callError (EvSetDeadline t r) = r"
| "callError (EvSetMulticastInterface ifc r) = r"
| "callError (EvWriteTo ifc p a n r) =
     (case r of Some err \<Rightarrow> Some err
      | None \<Rightarrow> if n < int (length p) then Some (shortWrite n (int (length p))) else None)"
| "callError (EvSleep d) = None"
| "callError (EvReadFrom dl r) =
     (case r of ReadErr err \<Rightarrow> if isFatal err then Some err else None | ReadOK d \<Rightarrow> None)"
| "callError (EvLog l) = None"

fun timeoutRead :: "event \<Rightarrow> bool" where
  "timeoutRead (EvReadFrom dl (ReadErr err)) = isTimeout err"
| "timeoutRead ev = False"

definition terminal :: "event \<Rightarrow> bool" where
  "terminal ev = (callError ev \<noteq> None \<or> timeoutRead ev)"

text \<open>The send attempts of a trace: outgoing interface, payload and destination.\<close>

fun sends :: "event list \<Rightarrow> (interface option \<times> bytes \<times> udpaddr) list" where
  "sends [] = []"
| "sends (EvWriteTo ifc p a n r # tr) = (ifc, p, a) # sends tr"
| "sends (ev # tr) = sends tr"

text \<open>The responses of the datagrams read in a trace that parse, in the order read.\<close>

fun parsed :: "env \<Rightarrow> request \<Rightarrow> event list \<Rightarrow> response list" where
  "parsed env req [] = []"
| "parsed env req (EvReadFrom dl (ReadOK d) # tr) =
     (case readResponse env (take 2048 d) req of
        Inl err \<Rightarrow> parsed env req tr
      | Inr response \<Rightarrow> response # parsed env req tr)"
| "parsed env req (ev # tr) = parsed env req tr"

text \<open>
  The events of one round: binding a multicast-capable interface of the list, and
  writing the request to the destination through one. The events of the read loop:
  a read under the given deadline, a sleep of 10 milliseconds, a log line.
\<close>

fun roundEvent :: "bytes \<Rightarrow> udpaddr \<Rightarrow> interface set \<Rightarrow> event \<Rightarrow> bool" where
  "roundEvent b d S (EvSetMulticastInterface ifc r) = (ifc \<in> S \<and> multicastCapable ifc)"
| "roundEvent b d S (EvWriteTo via p a n r) =
     (p = b \<and> a = d \<and> (case via of None \<Rightarrow> False | Some ifc \<Rightarrow> ifc \<in> S \<and> multicastCapable ifc))"
| "roundEvent b d S ev = False"

fun collectEvent :: "int option \<Rightarrow> event \<Rightarrow> bool" where
  "collectEvent dl (EvReadFrom dl' r) = (dl' = dl)"
| "collectEvent dl (EvSleep ms) = (ms = 10)"
| "collectEvent dl (EvLog l) = True"
| "collectEvent dl ev = False"

fun isSetDeadline :: "event \<Rightarrow> bool" where
  "isSetDeadline (EvSetDeadline t r) = True"
| "isSetDeadline ev = False"

fun isRead :: "event \<Rightarrow> bool" where
  "isRead (EvReadFrom dl r) = True"
| "isRead ev = False"

text \<open>What may come next in the trace after an event of the read loop.\<close>

fun follows :: "env \<Rightarrow> request \<Rightarrow> event \<Rightarrow> event \<Rightarrow> bool" where
  "follows env req (EvReadFrom dl (ReadErr err)) nxt = (isRetried err \<and> nxt = EvSleep 10)"
| "follows env req (EvReadFrom dl (ReadOK d)) nxt =
     (case readResponse env (take 2048 d) req of
        Inl err \<Rightarrow> nxt = EvLog (parseFailure err)
      | Inr response \<Rightarrow> isRead nxt)"
| "follows env req (EvSleep ms) nxt = (ms = 10 \<longrightarrow> isRead nxt)"
| "follows env req (EvLog l) nxt = isRead nxt"
| "follows env req ev nxt = True"

text \<open>The events after which the loop is about to read again.\<close>

fun settled :: "env \<Rightarrow> request \<Rightarrow> event \<Rightarrow> bool" where
  "settled env req (EvReadFrom dl (ReadErr err)) = False"
| "settled env req (EvReadFrom dl (ReadOK d)) =
     (case readResponse env (take 2048 d) req of Inl err \<Rightarrow> False | Inr response \<Rightarrow> True)"
| "settled env req ev = True"

text \<open>
  The send attempts of one complete round, and the trace of complete rounds, each
  followed by its pause.
\<close>

definition sentVia :: "bytes \<Rightarrow> udpaddr \<Rightarrow> interface list \<Rightarrow> (interface option \<times> bytes \<times> udpaddr) list" where
  "sentVia b d ifs = map (\<lambda>ifc. (Some ifc, b, d)) (filter multicastCapable ifs)"

definition withPauses :: "event list list \<Rightarrow> event list" where
  "withPauses segs = concat (map (\<lambda>seg. seg @ [EvSleep 5]) segs)"

text \<open>The results of a read after which the loop does not read again.\<close>

fun endsLoop :: "read_result \<Rightarrow> bool" where
  "endsLoop (ReadErr err) = (\<not> isRetried err)"
| "endsLoop (ReadOK d) = False"

section \<open>Example runs\<close>

text \<open>
  A host with a loopback interface and two multicast-capable ones, a discovery request,
  and a network that answers with a response, a malformed datagram, a temporary error
  and a second response before the read times out.
\<close>

definition lo :: interface where
  "lo = \<lparr>Index = 1, MTU = 65536, Name = ''lo'', HardwareAddr = [], Flags = 5\<rparr>"

definition eth0 :: interface where
  "eth0 = \<lparr>Index = 2, MTU = 1500, Name = ''eth0'', HardwareAddr = [], Flags = 19\<rparr>"

definition wlan0 :: interface where
  "wlan0 = \<lparr>Index = 3, MTU = 1500, Name = ''wlan0'', HardwareAddr = [], Flags = 19\<rparr>"

definition msearch :: request where
  "msearch = \<lparr>Method = ''M-SEARCH'', RequestURI = ''*'',
     Header = [(''MAN'', [''ssdp:discover'']), (''ST'', [''upnp:rootdevice'', ''ssdp:all''])],
     Host = ''239.255.255.250:1900''\<rparr>"

definition probe :: request where
  "probe = \<lparr>Method = [], RequestURI = ''/'', Header = [(''MX'', [''2''])],
     Host = ''239.255.255.250:1900''\<rparr>"

definition client :: httpuClient where
  "client = \<lparr>connDeadline = None, connMulticastIf = None\<rparr>"

definition ioTimeout :: error where
  "ioTimeout = NetError True True ''i/o timeout''"

definition lan :: env where
  "lan = \<lparr>resolveUDPAddr = (\<lambda>h. Inr (UDPAddr ''239.255.255.250'' 1900)),
     now = 1000,
     setDeadline = (\<lambda>t. None),
     interfaces = Inr [lo, eth0, wlan0],
     setMulticastInterface = (\<lambda>i ifc. None),
     writeTo = (\<lambda>i b a. (int (length b), None)),
     readFrom = (\<lambda>i. if i = 0 then ReadOK ''HTTP/1.1 200 OK''
        else if i = 1 then ReadOK ''junk''
        else if i = 2 then ReadErr (NetError False True ''no buffer space'')
        else if i = 3 then ReadOK ''HTTP/1.1 404''
        else ReadErr ioTimeout),
     readResponse = (\<lambda>b r. if take 5 b = ''HTTP/''
        then Inr (Response (if take 3 (drop 9 b) = ''200'' then 200 else 404) [] [])
        else Inl (PlainError ''malformed HTTP response''))\<rparr>"

definition shortLan :: env where
  "shortLan = lan\<lparr>writeTo := (\<lambda>i b a. (if i = 0 then 7 else int (length b), None))\<rparr>"

definition closedLan :: env where
  "closedLan = lan\<lparr>readFrom := (\<lambda>i. if i = 0 then ReadOK ''HTTP/1.1 200 OK''
     else ReadErr (PlainError ''use of closed network connection''))\<rparr>"

definition noRoute :: env where
  "noRoute = lan\<lparr>resolveUDPAddr := (\<lambda>h. Inl (PlainError ''missing port in address''))\<rparr>"

definition probeBytes :: bytes where
  "probeBytes = ''GET / HTTP/1.1'' @ CRLF @ ''MX: 2'' @ CRLF @ CRLF"

definition group :: udpaddr where
  "group = UDPAddr ''239.255.255.250'' 1900"

section \<open>How the loops unfold\<close>

declare sendLoop.simps [simp del]

lemma isRetried_not_timeout: "isRetried err \<Longrightarrow> \<not> isTimeout err"
  by (cases err) simp_all

lemma isFatal_not_timeout: "isFatal err \<Longrightarrow> \<not> isTimeout err"
  by (simp add: isFatal_def)

lemma isRetried_not_fatal: "isRetried err \<Longrightarrow> \<not> isFatal err"
  by (simp add: isFatal_def)

lemma sends_append: "sends (xs @ ys) = sends xs @ sends ys"
  by (induction xs rule: sends.induct) simp_all

lemma parsed_append: "parsed env req (xs @ ys) = parsed env req xs @ parsed env req ys"
  by (induction env req xs rule: parsed.induct) (simp_all split: sum.splits)

lemmas conn_defs = conn_SetDeadline_def conn_SetMulticastInterface_def conn_WriteTo_def
  conn_ReadFrom_def emit_def Let_def


lemma sendRound_Cons_cases:
  assumes "sendRound env b d (ifc # ifs) s = (r, s')"
  obtains
    (skip) "\<not> multicastCapable ifc" "sendRound env b d ifs s = (r, s')"
  | (bindFails) err where "multicastCapable ifc" "r = Some err"
      "trace s' = trace s @ [EvSetMulticastInterface ifc (Some err)]"
      "deadline s' = deadline s" "nReads s' = nReads s"
  | (writeFails) n w err where "multicastCapable ifc" "r = Some err"
      "trace s' = trace s @ [EvSetMulticastInterface ifc None, EvWriteTo (Some ifc) b d n w]"
      "callError (EvWriteTo (Some ifc) b d n w) = Some err"
      "deadline s' = deadline s" "nReads s' = nReads s"
  | (sent) n s2 where "multicastCapable ifc"
      "trace s2 = trace s @ [EvSetMulticastInterface ifc None, EvWriteTo (Some ifc) b d n None]"
      "callError (EvWriteTo (Some ifc) b d n None) = None"
      "deadline s2 = deadline s" "nReads s2 = nReads s"
      "sendRound env b d ifs s2 = (r, s')"
proof (cases "Flags ifc AND FlagMulticast = 0")
  case True
  with assms show ?thesis by (intro skip) (simp_all add: multicastCapable_def)
next
  case False
  then have mc: "multicastCapable ifc" by (simp add: multicastCapable_def)
  show ?thesis
  proof (cases "setMulticastInterface env (nSetIf s) ifc")
    case (Some err)
    with assms False show ?thesis
      by (intro bindFails [where err = err]) (auto simp: conn_defs mc)
  next
    case None
    obtain n w where nw: "writeTo env (nWrites s) b d = (n, w)"
      by (cases "writeTo env (nWrites s) b d")
    show ?thesis
    proof (cases "callError (EvWriteTo (Some ifc) b d n w)")
      case (Some err)
      with assms False None nw show ?thesis
        by (intro writeFails [where err = err and n = n and w = w]) (auto simp: conn_defs mc split: option.splits if_splits)
    next
      case none: None
      then have w: "w = None" and full: "\<not> n < int (length b)"
        by (auto split: option.splits if_splits)
      let ?s2 = "emit (EvWriteTo (Some ifc) b d n None)
          ((emit (EvSetMulticastInterface ifc None) (s\<lparr>nSetIf := Suc (nSetIf s)\<rparr>))
             \<lparr>multicastIf := Some ifc, nWrites := Suc (nWrites s)\<rparr>)"
      from assms False None nw w full have "sendRound env b d ifs ?s2 = (r, s')"
        by (simp add: conn_defs)
      then show ?thesis using none w
        by (intro sent [where n = n and ?s2.0 = ?s2]) (simp_all add: mc emit_def)
    qed
  qed
qed

lemma sendRound_terminal:
  "sendRound env b d ifs s = (r, s') \<Longrightarrow> \<forall>ev\<in>set (trace s). \<not> terminal ev \<Longrightarrow>
   (\<forall>ev\<in>set (butlast (trace s')). \<not> terminal ev) \<and>
   (case r of None \<Rightarrow> (\<forall>ev\<in>set (trace s'). \<not> terminal ev)
    | Some err \<Rightarrow> trace s' \<noteq> [] \<and> callError (last (trace s')) = Some err)"
proof (induction ifs arbitrary: s)
  case Nil
  then show ?case by (auto dest: in_set_butlastD)
next
  case (Cons ifc ifs)
  from Cons.prems(1) show ?case
  proof (cases rule: sendRound_Cons_cases)
    case skip
    then show ?thesis using Cons by blast
  next
    case (bindFails err)
    then show ?thesis using Cons.prems(2) by simp
  next
    case (writeFails n w err)
    then show ?thesis using Cons.prems(2) by (simp add: terminal_def butlast_append)
  next
    case (sent n s2)
    then have "\<forall>ev\<in>set (trace s2). \<not> terminal ev"
      using Cons.prems(2) by (simp add: terminal_def)
    with sent(6) show ?thesis by (rule Cons.IH)
  qed
qed


lemma sendLoop_cases:
  assumes "sendLoop env b d ifs i k s = (r, s')"
  obtains
    (finished) "\<not> i < k" "r = None" "s' = s"
  | (roundFails) err where "i < k" "r = Some err" "sendRound env b d ifs s = (Some err, s')"
  | (nextRound) s1 where "i < k" "sendRound env b d ifs s = (None, s1)"
      "sendLoop env b d ifs (i + 1) k (emit (EvSleep 5) s1) = (r, s')"
proof (cases "i < k")
  case False
  with assms show ?thesis by (intro finished) (simp_all add: sendLoop.simps)
next
  case True
  obtain r1 s1 where r1: "sendRound env b d ifs s = (r1, s1)"
    by (cases "sendRound env b d ifs s")
  show ?thesis
  proof (cases r1)
    case None
    with assms True r1 show ?thesis
      by (intro nextRound [where ?s1.0 = s1]) (simp_all add: sendLoop.simps [of _ _ _ _ i])
  next
    case (Some err)
    with assms True r1 show ?thesis
      by (intro roundFails [where err = err]) (simp_all add: sendLoop.simps [of _ _ _ _ i])
  qed
qed

lemma sendLoop_terminal:
  "sendLoop env b d ifs i k s = (r, s') \<Longrightarrow> \<forall>ev\<in>set (trace s). \<not> terminal ev \<Longrightarrow>
   (\<forall>ev\<in>set (butlast (trace s')). \<not> terminal ev) \<and>
   (case r of None \<Rightarrow> (\<forall>ev\<in>set (trace s'). \<not> terminal ev)
    | Some err \<Rightarrow> trace s' \<noteq> [] \<and> callError (last (trace s')) = Some err)"
proof (induction env b d ifs i k s rule: sendLoop.induct)
  case (1 env b d ifs i k s)
  from "1.prems"(1) show ?case
  proof (cases rule: sendLoop_cases)
    case finished
    then show ?thesis using "1.prems"(2) by (auto dest: in_set_butlastD)
  next
    case (roundFails err)
    then show ?thesis using sendRound_terminal [OF roundFails(3) "1.prems"(2)] by simp
  next
    case (nextRound s1)
    from sendRound_terminal [OF nextRound(2) "1.prems"(2)]
    have "\<forall>ev\<in>set (trace (emit (EvSleep 5) s1)). \<not> terminal ev"
      by (simp add: emit_def terminal_def)
    with "1.IH" [OF nextRound(1) nextRound(2) [symmetric] refl nextRound(3)]
    show ?thesis by simp
  qed
qed


lemma collect_Suc_cases:
  assumes "collect env (Suc n) req rs s = (out, s')"
  obtains
    (timedOut) err where "isTimeout err" "out = Some (Inr rs)"
      "trace s' = trace s @ [EvReadFrom (deadline s) (ReadErr err)]" "deadline s' = deadline s"
  | (retry) err s1 where "isRetried err"
      "trace s1 = trace s @ [EvReadFrom (deadline s) (ReadErr err), EvSleep 10]"
      "deadline s1 = deadline s" "collect env n req rs s1 = (out, s')"
  | (fatal) err where "isFatal err" "out = Some (Inl err)"
      "trace s' = trace s @ [EvReadFrom (deadline s) (ReadErr err)]" "deadline s' = deadline s"
  | (malformed) d err s1 where "readResponse env (take 2048 d) req = Inl err"
      "trace s1 = trace s @ [EvReadFrom (deadline s) (ReadOK d), EvLog (parseFailure err)]"
      "deadline s1 = deadline s" "collect env n req rs s1 = (out, s')"
  | (wellFormed) d response s1 where "readResponse env (take 2048 d) req = Inr response"
      "trace s1 = trace s @ [EvReadFrom (deadline s) (ReadOK d)]"
      "deadline s1 = deadline s" "collect env n req (rs @ [response]) s1 = (out, s')"
proof (cases "readFrom env (nReads s)")
  case (ReadErr err)
  show ?thesis
  proof (cases err)
    case (NetError to tmp m)
    consider "to" | "\<not> to" "tmp" | "\<not> to" "\<not> tmp" by blast
    then show ?thesis
    proof cases
      case 1
      with assms ReadErr NetError show ?thesis
        by (intro timedOut [where err = err]) (auto simp: conn_defs)
    next
      case 2
      with assms ReadErr NetError show ?thesis
        by (intro retry [where err = err
              and ?s1.0 = "emit (EvSleep 10) (emit (EvReadFrom (deadline s) (ReadErr err)) (s\<lparr>nReads := Suc (nReads s)\<rparr>))"])
           (auto simp: conn_defs)
    next
      case 3
      with assms ReadErr NetError show ?thesis
        by (intro fatal [where err = err]) (auto simp: conn_defs isFatal_def)
    qed
  next
    case (PlainError m)
    with assms ReadErr show ?thesis
      by (intro fatal [where err = err]) (auto simp: conn_defs isFatal_def)
  qed
next
  case (ReadOK d)
  show ?thesis
  proof (cases "readResponse env (take 2048 d) req")
    case (Inl err)
    with assms ReadOK show ?thesis
      by (intro malformed [where d = d and err = err
            and ?s1.0 = "emit (EvLog (parseFailure err)) (emit (EvReadFrom (deadline s) (ReadOK d)) (s\<lparr>nReads := Suc (nReads s)\<rparr>))"])
         (auto simp: conn_defs)
  next
    case (Inr response)
    with assms ReadOK show ?thesis
      by (intro wellFormed [where d = d and response = response
            and ?s1.0 = "emit (EvReadFrom (deadline s) (ReadOK d)) (s\<lparr>nReads := Suc (nReads s)\<rparr>)"])
         (auto simp: conn_defs)
  qed
qed

lemma collect_terminal:
  "collect env n req rs s = (out, s') \<Longrightarrow> \<forall>ev\<in>set (trace s). \<not> terminal ev \<Longrightarrow>
   rs = parsed env req (trace s) \<Longrightarrow>
   (\<forall>ev\<in>set (butlast (trace s')). \<not> terminal ev) \<and>
   (case out of None \<Rightarrow> (\<forall>ev\<in>set (trace s'). \<not> terminal ev)
    | Some (Inl err) \<Rightarrow> trace s' \<noteq> [] \<and> callError (last (trace s')) = Some err
    | Some (Inr rs') \<Rightarrow> trace s' \<noteq> [] \<and> timeoutRead (last (trace s')) \<and>
        rs' = parsed env req (trace s'))"
proof (induction n arbitrary: rs s)
  case 0
  then show ?case by (auto dest: in_set_butlastD)
next
  case (Suc n)
  from Suc.prems(1) show ?case
  proof (cases rule: collect_Suc_cases)
    case (timedOut err)
    then show ?thesis using Suc.prems(2,3) by (simp add: parsed_append)
  next
    case (retry err s1)
    have "\<forall>ev\<in>set (trace s1). \<not> terminal ev"
      using retry(1,2) Suc.prems(2)
      by (simp add: terminal_def isRetried_not_fatal isRetried_not_timeout)
    moreover have "rs = parsed env req (trace s1)"
      using retry(2) Suc.prems(3) by (simp add: parsed_append)
    ultimately show ?thesis using Suc.IH [OF retry(4)] by blast
  next
    case (fatal err)
    then show ?thesis using Suc.prems(2) by simp
  next
    case (malformed d err s1)
    have "\<forall>ev\<in>set (trace s1). \<not> terminal ev"
      using malformed(2) Suc.prems(2) by (simp add: terminal_def)
    moreover have "rs = parsed env req (trace s1)"
      using malformed(1,2) Suc.prems(3) by (simp add: parsed_append)
    ultimately show ?thesis using Suc.IH [OF malformed(4)] by blast
  next
    case (wellFormed d response s1)
    have "\<forall>ev\<in>set (trace s1). \<not> terminal ev"
      using wellFormed(2) Suc.prems(2) by (simp add: terminal_def)
    moreover have "rs @ [response] = parsed env req (trace s1)"
      using wellFormed(1,2) Suc.prems(3) by (simp add: parsed_append)
    ultimately show ?thesis using Suc.IH [OF wellFormed(4)] by blast
  qed
qed

lemma encodeRequest_eq:
  "encodeRequest req = Inr ((if Method req = [] then ''GET'' else Method req) @ '' '' @
     RequestURI req @ '' HTTP/1.1'' @ CRLF @ headerLines (Header req) @ CRLF)"
  by (simp add: encodeRequest_def Fprintf_requestLine_def header_Write_def buffer_Write_def)

lemma sendPhase_cases:
  assumes "sendPhase env httpu req timeout k = (r, s')"
  obtains
    (unresolved) err where "resolveUDPAddr env (Host req) = Inl err" "r = Some err"
      "s' = enter httpu"
  | (noDeadline) err dest where "resolveUDPAddr env (Host req) = Inr dest" "r = Some err"
      "trace s' = [EvSetDeadline (now env + timeout) (Some err)]"
      "setDeadline env (now env + timeout) = Some err"
  | (noInterfaces) err dest where "resolveUDPAddr env (Host req) = Inr dest"
      "interfaces env = Inl err" "r = Some err"
      "trace s' = [EvSetDeadline (now env + timeout) None]"
      "setDeadline env (now env + timeout) = None"
  | (sending) buf dest ifs s1 where "encodeRequest req = Inr buf"
      "resolveUDPAddr env (Host req) = Inr dest" "interfaces env = Inr ifs"
      "trace s1 = [EvSetDeadline (now env + timeout) None]"
      "deadline s1 = Some (now env + timeout)"
      "sendLoop env buf dest ifs 0 k s1 = (r, s')"
      "setDeadline env (now env + timeout) = None"
proof -
  obtain buf where buf: "encodeRequest req = Inr buf" by (simp add: encodeRequest_eq)
  show ?thesis
  proof (cases "resolveUDPAddr env (Host req)")
    case (Inl err)
    with assms buf show ?thesis
      by (intro unresolved [where err = err]) (auto simp: sendPhase_def)
  next
    case (Inr dest)
    show ?thesis
    proof (cases "setDeadline env (now env + timeout)")
      case (Some err)
      with assms buf Inr show ?thesis
        by (intro noDeadline [where err = err and dest = dest])
           (auto simp: sendPhase_def conn_defs enter_def)
    next
      case None
      show ?thesis
      proof (cases "interfaces env")
        case (Inl err)
        with assms buf Inr None show ?thesis
          by (intro noInterfaces [where err = err and dest = dest])
             (auto simp: sendPhase_def conn_defs enter_def)
      next
        case ifs: (Inr ifs)
        with assms buf Inr None show ?thesis
          by (intro sending [where buf = buf and dest = dest and ifs = ifs
                and ?s1.0 = "(emit (EvSetDeadline (now env + timeout) None) (enter httpu))\<lparr>deadline := Some (now env + timeout)\<rparr>"])
             (auto simp: sendPhase_def conn_defs enter_def)
      qed
    qed
  qed
qed

lemma sendPhase_terminal:
  assumes "sendPhase env httpu req timeout k = (r, s')"
  shows "(\<forall>ev\<in>set (butlast (trace s')). \<not> terminal ev) \<and>
   (case r of None \<Rightarrow> (\<forall>ev\<in>set (trace s'). \<not> terminal ev)
    | Some err \<Rightarrow> (trace s' = [] \<and> resolveUDPAddr env (Host req) = Inl err) \<or>
        (trace s' = [EvSetDeadline (now env + timeout) None] \<and> interfaces env = Inl err) \<or>
        (trace s' \<noteq> [] \<and> callError (last (trace s')) = Some err))"
  using assms
proof (cases rule: sendPhase_cases)
  case (unresolved err)
  then show ?thesis by (simp add: enter_def)
next
  case (noDeadline err dest)
  then show ?thesis by simp
next
  case (noInterfaces err dest)
  then show ?thesis by simp
next
  case (sending buf dest ifs s1)
  have "\<forall>ev\<in>set (trace s1). \<not> terminal ev"
    using sending(4) by (simp add: terminal_def)
  from sendLoop_terminal [OF sending(6) this] show ?thesis
    by (auto split: option.splits)
qed

lemma Do_cases:
  assumes "Do env fuel httpu req timeout k = (out, s)"
  obtains
    (sendFails) err where "sendPhase env httpu req timeout k = (Some err, s)"
      "out = Some ([], Some err)"
  | (collecting) s1 c where "sendPhase env httpu req timeout k = (None, s1)"
      "collect env fuel req [] s1 = (c, s)"
      "out = (case c of None \<Rightarrow> None | Some (Inl err) \<Rightarrow> Some ([], Some err)
         | Some (Inr responses) \<Rightarrow> Some (responses, None))"
proof -
  obtain r s1 where r: "sendPhase env httpu req timeout k = (r, s1)"
    by (cases "sendPhase env httpu req timeout k")
  show ?thesis
  proof (cases r)
    case (Some err)
    with assms r show ?thesis
      by (intro sendFails [where err = err]) (auto simp: Do_def)
  next
    case None
    obtain c s2 where c: "collect env fuel req [] s1 = (c, s2)"
      by (cases "collect env fuel req [] s1")
    with assms r None show ?thesis
      by (intro collecting [where ?s1.0 = s1 and c = c])
         (auto simp: Do_def split: option.splits sum.splits)
  qed
qed

lemma roundEvent_mono: "roundEvent b d S ev \<Longrightarrow> S \<subseteq> T \<Longrightarrow> roundEvent b d T ev"
  by (cases ev) (auto split: option.splits)

lemma sendRound_events:
  "sendRound env b d ifs s = (r, s') \<Longrightarrow>
   \<exists>evs. trace s' = trace s @ evs \<and> deadline s' = deadline s \<and>
     (\<forall>ev\<in>set evs. roundEvent b d (set ifs) ev) \<and>
     (r = None \<longrightarrow> sends evs = sentVia b d ifs)"
proof (induction ifs arbitrary: s)
  case Nil
  then show ?case by (simp add: sentVia_def)
next
  case (Cons ifc ifs)
  from Cons.prems show ?case
  proof (cases rule: sendRound_Cons_cases)
    case skip
    from Cons.IH [OF skip(2)] obtain evs where evs: "trace s' = trace s @ evs"
      "deadline s' = deadline s" "\<forall>ev\<in>set evs. roundEvent b d (set ifs) ev"
      "r = None \<longrightarrow> sends evs = sentVia b d ifs" by blast
    from evs(3) have "\<forall>ev\<in>set evs. roundEvent b d (set (ifc # ifs)) ev"
      by (auto elim: roundEvent_mono)
    with evs(1,2,4) skip(1) show ?thesis by (auto simp: sentVia_def)
  next
    case (bindFails err)
    then show ?thesis by simp
  next
    case (writeFails n w err)
    then show ?thesis by simp
  next
    case (sent n s2)
    from Cons.IH [OF sent(6)] obtain evs where evs: "trace s' = trace s2 @ evs"
      "deadline s' = deadline s2" "\<forall>ev\<in>set evs. roundEvent b d (set ifs) ev"
      "r = None \<longrightarrow> sends evs = sentVia b d ifs" by blast
    let ?new = "[EvSetMulticastInterface ifc None, EvWriteTo (Some ifc) b d n None]"
    from evs(3) have "\<forall>ev\<in>set (?new @ evs). roundEvent b d (set (ifc # ifs)) ev"
      using sent(1) by (auto elim: roundEvent_mono)
    moreover have "trace s' = trace s @ (?new @ evs)" using evs(1) sent(2) by simp
    moreover have "r = None \<longrightarrow> sends (?new @ evs) = sentVia b d (ifc # ifs)"
      using evs(4) sent(1) by (simp add: sentVia_def)
    moreover have "deadline s' = deadline s" using evs(2) sent(4) by simp
    ultimately show ?thesis by blast
  qed
qed

lemma sendLoop_events:
  "sendLoop env b d ifs i k s = (r, s') \<Longrightarrow>
   \<exists>evs. trace s' = trace s @ evs \<and> deadline s' = deadline s \<and>
     (\<forall>ev\<in>set evs. roundEvent b d (set ifs) ev \<or> ev = EvSleep 5) \<and>
     (r = None \<longrightarrow> (\<exists>segs. evs = withPauses segs \<and> length segs = nat (k - i) \<and>
        (\<forall>seg\<in>set segs. (\<forall>ev\<in>set seg. roundEvent b d (set ifs) ev) \<and>
           sends seg = sentVia b d ifs)))"
proof (induction env b d ifs i k s rule: sendLoop.induct)
  case (1 env b d ifs i k s)
  from "1.prems" show ?case
  proof (cases rule: sendLoop_cases)
    case finished
    then show ?thesis by (auto simp: withPauses_def)
  next
    case (roundFails err)
    from sendRound_events [OF roundFails(3)] roundFails(2) show ?thesis by auto
  next
    case (nextRound s1)
    from sendRound_events [OF nextRound(2)] obtain seg where seg: "trace s1 = trace s @ seg"
      "deadline s1 = deadline s" "\<forall>ev\<in>set seg. roundEvent b d (set ifs) ev"
      "sends seg = sentVia b d ifs" by auto
    from "1.IH" [OF nextRound(1) nextRound(2) [symmetric] refl nextRound(3)]
    obtain evs where evs: "trace s' = trace (emit (EvSleep 5) s1) @ evs"
      "deadline s' = deadline (emit (EvSleep 5) s1)"
      "\<forall>ev\<in>set evs. roundEvent b d (set ifs) ev \<or> ev = EvSleep 5"
      "r = None \<longrightarrow> (\<exists>segs. evs = withPauses segs \<and> length segs = nat (k - (i + 1)) \<and>
        (\<forall>seg\<in>set segs. (\<forall>ev\<in>set seg. roundEvent b d (set ifs) ev) \<and>
           sends seg = sentVia b d ifs))" by blast
    let ?evs = "seg @ EvSleep 5 # evs"
    have "trace s' = trace s @ ?evs" using evs(1) seg(1) by (simp add: emit_def)
    moreover have "deadline s' = deadline s" using evs(2) seg(2) by (simp add: emit_def)
    moreover have "\<forall>ev\<in>set ?evs. roundEvent b d (set ifs) ev \<or> ev = EvSleep 5"
      using evs(3) seg(3) by auto
    moreover have "r = None \<longrightarrow> (\<exists>segs. ?evs = withPauses segs \<and> length segs = nat (k - i) \<and>
        (\<forall>seg\<in>set segs. (\<forall>ev\<in>set seg. roundEvent b d (set ifs) ev) \<and>
           sends seg = sentVia b d ifs))"
    proof
      assume "r = None"
      with evs(4) obtain segs where segs: "evs = withPauses segs"
        "length segs = nat (k - (i + 1))"
        "\<forall>seg\<in>set segs. (\<forall>ev\<in>set seg. roundEvent b d (set ifs) ev) \<and>
           sends seg = sentVia b d ifs" by blast
      have "?evs = withPauses (seg # segs)" using segs(1) by (simp add: withPauses_def)
      moreover have "length (seg # segs) = nat (k - i)" using segs(2) nextRound(1) by simp
      moreover have "\<forall>x\<in>set (seg # segs). (\<forall>ev\<in>set x. roundEvent b d (set ifs) ev) \<and>
           sends x = sentVia b d ifs" using segs(3) seg(3,4) by simp
      ultimately show "\<exists>segs. ?evs = withPauses segs \<and> length segs = nat (k - i) \<and>
        (\<forall>seg\<in>set segs. (\<forall>ev\<in>set seg. roundEvent b d (set ifs) ev) \<and>
           sends seg = sentVia b d ifs)" by blast
    qed
    ultimately show ?thesis by blast
  qed
qed

lemma collect_events:
  "collect env n req rs s = (out, s') \<Longrightarrow>
   \<exists>evs. trace s' = trace s @ evs \<and> deadline s' = deadline s \<and>
     (\<forall>ev\<in>set evs. collectEvent (deadline s) ev) \<and>
     (0 < n \<longrightarrow> (\<exists>r rest. evs = EvReadFrom (deadline s) r # rest))"
proof (induction n arbitrary: rs s)
  case 0
  then show ?case by simp
next
  case (Suc n)
  from Suc.prems show ?case
  proof (cases rule: collect_Suc_cases)
    case (timedOut err)
    then show ?thesis by simp
  next
    case (retry err s1)
    from Suc.IH [OF retry(4)] obtain evs where evs: "trace s' = trace s1 @ evs"
      "deadline s' = deadline s1" "\<forall>ev\<in>set evs. collectEvent (deadline s1) ev" by blast
    let ?evs = "[EvReadFrom (deadline s) (ReadErr err), EvSleep 10] @ evs"
    have "trace s' = trace s @ ?evs" using evs(1) retry(2) by simp
    moreover have "\<forall>ev\<in>set ?evs. collectEvent (deadline s) ev" using evs(3) retry(3) by simp
    moreover have "deadline s' = deadline s" using evs(2) retry(3) by simp
    ultimately show ?thesis by (intro exI [of _ ?evs]) simp
  next
    case (fatal err)
    then show ?thesis by simp
  next
    case (malformed dg err s1)
    from Suc.IH [OF malformed(4)] obtain evs where evs: "trace s' = trace s1 @ evs"
      "deadline s' = deadline s1" "\<forall>ev\<in>set evs. collectEvent (deadline s1) ev" by blast
    let ?evs = "[EvReadFrom (deadline s) (ReadOK dg), EvLog (parseFailure err)] @ evs"
    have "trace s' = trace s @ ?evs" using evs(1) malformed(2) by simp
    moreover have "\<forall>ev\<in>set ?evs. collectEvent (deadline s) ev" using evs(3) malformed(3) by simp
    moreover have "deadline s' = deadline s" using evs(2) malformed(3) by simp
    ultimately show ?thesis by (intro exI [of _ ?evs]) simp
  next
    case (wellFormed dg response s1)
    from Suc.IH [OF wellFormed(4)] obtain evs where evs: "trace s' = trace s1 @ evs"
      "deadline s' = deadline s1" "\<forall>ev\<in>set evs. collectEvent (deadline s1) ev" by blast
    let ?evs = "[EvReadFrom (deadline s) (ReadOK dg)] @ evs"
    have "trace s' = trace s @ ?evs" using evs(1) wellFormed(2) by simp
    moreover have "\<forall>ev\<in>set ?evs. collectEvent (deadline s) ev" using evs(3) wellFormed(3) by simp
    moreover have "deadline s' = deadline s" using evs(2) wellFormed(3) by simp
    ultimately show ?thesis by (intro exI [of _ ?evs]) simp
  qed
qed

lemma roundEvent_not_parsed: "\<forall>ev\<in>set evs. roundEvent b d S ev \<or> ev = EvSleep 5 \<Longrightarrow> parsed env req evs = []"
  by (induction env req evs rule: parsed.induct) auto

lemma collectEvent_not_sent: "\<forall>ev\<in>set evs. collectEvent dl ev \<Longrightarrow> sends evs = []"
  by (induction evs rule: sends.induct) auto

lemma sendPhase_any:
  assumes "sendPhase env httpu req timeout k = (r, s')" and "encodeRequest req = Inr buf"
  shows "\<forall>ev\<in>set (trace s').
    isSetDeadline ev \<or> ev = EvSleep 5 \<or> (\<exists>dest ifs. roundEvent buf dest (set ifs) ev)"
  using assms(1)
proof (cases rule: sendPhase_cases)
  case (unresolved err)
  then show ?thesis by (simp add: enter_def)
next
  case (noDeadline err dest)
  then show ?thesis by simp
next
  case (noInterfaces err dest)
  then show ?thesis by simp
next
  case (sending buf' dest ifs s1)
  from sendLoop_events [OF sending(6)] obtain evs where evs: "trace s' = trace s1 @ evs"
    "\<forall>ev\<in>set evs. roundEvent buf' dest (set ifs) ev \<or> ev = EvSleep 5" by blast
  from sending(1) assms(2) have "buf' = buf" by simp
  show ?thesis
  proof
    fix ev assume "ev \<in> set (trace s')"
    then have "ev = EvSetDeadline (now env + timeout) None \<or> ev \<in> set evs"
      using evs(1) sending(4) by auto
    then show "isSetDeadline ev \<or> ev = EvSleep 5 \<or> (\<exists>dest ifs. roundEvent buf dest (set ifs) ev)"
      using evs(2) \<open>buf' = buf\<close> by auto
  qed
qed

lemma sendPhase_completed:
  assumes "sendPhase env httpu req timeout k = (None, s')"
  shows "\<exists>buf dest ifs segs. encodeRequest req = Inr buf \<and>
     resolveUDPAddr env (Host req) = Inr dest \<and> interfaces env = Inr ifs \<and>
     deadline s' = Some (now env + timeout) \<and>
     trace s' = EvSetDeadline (now env + timeout) None # withPauses segs \<and>
     length segs = nat k \<and>
     (\<forall>seg\<in>set segs. (\<forall>ev\<in>set seg. roundEvent buf dest (set ifs) ev) \<and>
        sends seg = sentVia buf dest ifs)"
  using assms
proof (cases rule: sendPhase_cases)
  case (sending buf dest ifs s1)
  from sendLoop_events [OF sending(6)] obtain segs where
    "trace s' = trace s1 @ withPauses segs" "deadline s' = deadline s1" "length segs = nat k"
    "\<forall>seg\<in>set segs. (\<forall>ev\<in>set seg. roundEvent buf dest (set ifs) ev) \<and>
        sends seg = sentVia buf dest ifs" by auto
  with sending(1-5) show ?thesis by auto
qed simp_all

lemma sendPhase_not_parsed:
  assumes "sendPhase env httpu req timeout k = (r, s')"
  shows "parsed env' req' (trace s') = []"
proof -
  obtain buf where buf: "encodeRequest req = Inr buf" by (simp add: encodeRequest_eq)
  have "parsed env' req' evs = []"
    if "\<forall>ev\<in>set evs. isSetDeadline ev \<or> ev = EvSleep 5 \<or> (\<exists>dest ifs. roundEvent buf dest (set ifs) ev)"
    for evs using that by (induction env' req' evs rule: parsed.induct) auto
  with sendPhase_any [OF assms buf] show ?thesis by blast
qed

lemma sendPhase_no_read:
  assumes "sendPhase env httpu req timeout k = (r, s')"
  shows "\<forall>ev\<in>set (trace s'). \<not> collectEvent dl ev"
proof -
  obtain buf where buf: "encodeRequest req = Inr buf" by (simp add: encodeRequest_eq)
  show ?thesis
  proof
    fix ev assume "ev \<in> set (trace s')"
    with sendPhase_any [OF assms buf]
    have "isSetDeadline ev \<or> ev = EvSleep 5 \<or> (\<exists>dest ifs. roundEvent buf dest (set ifs) ev)"
      by blast
    then show "\<not> collectEvent dl ev" by (cases ev) auto
  qed
qed

lemma Do_trace_split:
  assumes "Do env fuel httpu req timeout k = (out, s)"
  shows "\<exists>r s1 evs. sendPhase env httpu req timeout k = (r, s1) \<and> trace s = trace s1 @ evs \<and>
     deadline s = deadline s1 \<and>
     (\<forall>ev\<in>set evs. collectEvent (deadline s1) ev) \<and> (r \<noteq> None \<longrightarrow> evs = []) \<and>
     (r = None \<and> 0 < fuel \<longrightarrow> (\<exists>rd rest. evs = EvReadFrom (deadline s1) rd # rest))"
  using assms
proof (cases rule: Do_cases)
  case (sendFails err)
  then show ?thesis by simp
next
  case (collecting s1 c)
  from collect_events [OF collecting(2)] collecting(1) show ?thesis by auto
qed

lemma Do_terminal:
  assumes "Do env fuel httpu req timeout k = (out, s)"
  shows "(\<forall>ev\<in>set (butlast (trace s)). \<not> terminal ev) \<and>
   (case out of None \<Rightarrow> (\<forall>ev\<in>set (trace s). \<not> terminal ev)
    | Some (rs, Some err) \<Rightarrow> rs = [] \<and>
        ((trace s = [] \<and> resolveUDPAddr env (Host req) = Inl err) \<or>
         (trace s = [EvSetDeadline (now env + timeout) None] \<and> interfaces env = Inl err) \<or>
         (trace s \<noteq> [] \<and> callError (last (trace s)) = Some err))
    | Some (rs, None) \<Rightarrow> trace s \<noteq> [] \<and> timeoutRead (last (trace s)) \<and>
        rs = parsed env req (trace s))"
  using assms
proof (cases rule: Do_cases)
  case (sendFails err)
  from sendPhase_terminal [OF sendFails(1)] sendFails(2) show ?thesis by simp
next
  case (collecting s1 c)
  from sendPhase_terminal [OF collecting(1)]
  have quiet: "\<forall>ev\<in>set (trace s1). \<not> terminal ev" by simp
  have "[] = parsed env req (trace s1)"
    using sendPhase_not_parsed [OF collecting(1)] by simp
  from collect_terminal [OF collecting(2) quiet this] collecting(3)
  show ?thesis by (auto split: option.splits sum.splits)
qed


lemma settled_follows: "settled env req ev \<Longrightarrow> isRead nxt \<Longrightarrow> follows env req ev nxt"
  by (induction env req ev rule: settled.induct) (auto split: sum.splits)

lemma successively_snoc:
  "successively R (xs @ [x]) \<longleftrightarrow> successively R xs \<and> (xs = [] \<or> R (last xs) x)"
  by (simp add: successively_append_iff)

lemma successively_snoc2:
  "successively R (xs @ [x, y]) \<longleftrightarrow> successively R xs \<and> (xs = [] \<or> R (last xs) x) \<and> R x y"
  by (auto simp: successively_append_iff)

lemma collect_follows:
  "collect env n req rs s = (out, s') \<Longrightarrow> successively (follows env req) (trace s) \<Longrightarrow>
   trace s = [] \<or> settled env req (last (trace s)) \<Longrightarrow>
   successively (follows env req) (trace s') \<and>
   (out = None \<longrightarrow> trace s' = [] \<or> settled env req (last (trace s')))"
proof (induction n arbitrary: rs s)
  case 0
  then show ?case by simp
next
  case (Suc n)
  from Suc.prems(1) show ?case
  proof (cases rule: collect_Suc_cases)
    case (timedOut err)
    then show ?thesis using Suc.prems(2,3) by (auto simp: successively_snoc settled_follows)
  next
    case (retry err s1)
    have "successively (follows env req) (trace s1)"
      using retry(1,2) Suc.prems(2,3) by (auto simp: successively_snoc2 settled_follows)
    moreover have "trace s1 = [] \<or> settled env req (last (trace s1))"
      using retry(2) by simp
    ultimately show ?thesis using Suc.IH [OF retry(4)] by blast
  next
    case (fatal err)
    then show ?thesis using Suc.prems(2,3) by (auto simp: successively_snoc settled_follows)
  next
    case (malformed d err s1)
    have "successively (follows env req) (trace s1)"
      using malformed(1,2) Suc.prems(2,3) by (auto simp: successively_snoc2 settled_follows)
    moreover have "trace s1 = [] \<or> settled env req (last (trace s1))"
      using malformed(2) by simp
    ultimately show ?thesis using Suc.IH [OF malformed(4)] by blast
  next
    case (wellFormed d response s1)
    have "successively (follows env req) (trace s1)"
      using wellFormed(1,2) Suc.prems(2,3) by (auto simp: successively_snoc settled_follows)
    moreover have "trace s1 = [] \<or> settled env req (last (trace s1))"
      using wellFormed(1,2) by simp
    ultimately show ?thesis using Suc.IH [OF wellFormed(4)] by blast
  qed
qed

lemma sendEvent_settled:
  "isSetDeadline ev \<or> ev = EvSleep 5 \<or> (\<exists>dest ifs. roundEvent buf dest (set ifs) ev) \<Longrightarrow>
   settled env req ev \<and> follows env req ev nxt"
  by (cases ev) auto

lemma successively_all: "\<forall>x\<in>set xs. \<forall>y. R x y \<Longrightarrow> successively R xs"
  by (induction xs) (auto simp: successively_Cons)

lemma sendPhase_follows:
  assumes "sendPhase env httpu req timeout k = (r, s')"
  shows "successively (follows env' req') (trace s') \<and>
    (trace s' = [] \<or> settled env' req' (last (trace s')))"
proof -
  obtain buf where buf: "encodeRequest req = Inr buf" by (simp add: encodeRequest_eq)
  from sendPhase_any [OF assms buf]
  have all: "\<forall>ev\<in>set (trace s'). settled env' req' ev \<and> (\<forall>nxt. follows env' req' ev nxt)"
    using sendEvent_settled by blast
  then have "successively (follows env' req') (trace s')"
    by (intro successively_all) blast
  moreover have "trace s' = [] \<or> settled env' req' (last (trace s'))"
    using all last_in_set by blast
  ultimately show ?thesis by blast
qed

lemma Do_follows:
  assumes "Do env fuel httpu req timeout k = (out, s)"
  shows "successively (follows env req) (trace s) \<and>
    (out = None \<longrightarrow> trace s = [] \<or> settled env req (last (trace s)))"
  using assms
proof (cases rule: Do_cases)
  case (sendFails err)
  with sendPhase_follows [OF sendFails(1)] show ?thesis by simp
next
  case (collecting s1 c)
  from sendPhase_follows [OF collecting(1), of env req]
  have "successively (follows env req) (trace s1)"
    "trace s1 = [] \<or> settled env req (last (trace s1))" by simp_all
  from collect_follows [OF collecting(2) this] collecting(3) show ?thesis
    by (auto split: option.splits sum.splits)
qed

lemma terminal_is_last:
  assumes "Do env fuel httpu req timeout k = (out, s)" and "i < length (trace s)"
    and "terminal (trace s ! i)"
  shows "Suc i = length (trace s) \<and> last (trace s) = trace s ! i \<and> out \<noteq> None"
proof -
  from Do_terminal [OF assms(1)]
  have quiet: "\<forall>ev\<in>set (butlast (trace s)). \<not> terminal ev"
    and running: "out = None \<longrightarrow> (\<forall>ev\<in>set (trace s). \<not> terminal ev)" by auto
  have "Suc i = length (trace s)"
  proof (rule ccontr)
    assume "Suc i \<noteq> length (trace s)"
    with assms(2) have "i < length (butlast (trace s))" by simp
    then have "butlast (trace s) ! i \<in> set (butlast (trace s))" by (rule nth_mem)
    moreover have "butlast (trace s) ! i = trace s ! i"
      using \<open>i < length (butlast (trace s))\<close> by (rule nth_butlast)
    ultimately show False using quiet assms(3) by simp
  qed
  moreover from this assms(2) have "last (trace s) = trace s ! i"
    by (metis diff_Suc_1 last_conv_nth length_0_conv not_less_zero)
  moreover have "out \<noteq> None" using running assms(2,3) nth_mem by blast
  ultimately show ?thesis by blast
qed

lemma unsettled_has_next:
  assumes "Do env fuel httpu req timeout k = (out, s)" and "i < length (trace s)"
    and "\<not> terminal (trace s ! i)" and "\<not> settled env req (trace s ! i)"
  shows "Suc i < length (trace s) \<and> follows env req (trace s ! i) (trace s ! Suc i)"
proof -
  have "Suc i < length (trace s)"
  proof (rule ccontr)
    assume "\<not> Suc i < length (trace s)"
    with assms(2) have len: "Suc i = length (trace s)" by simp
    with assms(2) have lst: "last (trace s) = trace s ! i"
      by (metis diff_Suc_1 last_conv_nth length_0_conv not_less_zero)
    show False
    proof (cases out)
      case None
      with Do_follows [OF assms(1)] lst assms(2,4) show False by auto
    next
      case (Some res)
      obtain rs e where res: "res = (rs, e)" by (cases res)
      from Do_terminal [OF assms(1)] Some res lst assms(2,3,4) show False
        by (cases e) (auto simp: terminal_def)
    qed
  qed
  moreover from Do_follows [OF assms(1)] this
  have "follows env req (trace s ! i) (trace s ! Suc i)"
    by (simp add: successively_conv_nth)
  ultimately show ?thesis by blast
qed

lemma settled_continues:
  assumes "Do env fuel httpu req timeout k = (out, s)" and "i < length (trace s)"
    and "\<not> terminal (trace s ! i)" and "\<not> isSetDeadline (trace s ! i)"
  shows "(Suc i < length (trace s) \<and> follows env req (trace s ! i) (trace s ! Suc i)) \<or>
    (Suc i = length (trace s) \<and> out = None)"
proof (cases "Suc i < length (trace s)")
  case True
  with Do_follows [OF assms(1)] show ?thesis by (simp add: successively_conv_nth)
next
  case False
  with assms(2) have len: "Suc i = length (trace s)" by simp
  with assms(2) have lst: "last (trace s) = trace s ! i"
    by (metis diff_Suc_1 last_conv_nth length_0_conv not_less_zero)
  have "out = None"
  proof (cases out)
    case (Some res)
    obtain rs e where res: "res = (rs, e)" by (cases res)
    from Do_terminal [OF assms(1)] Some res lst assms(2,3,4) show ?thesis
      by (cases e) (auto simp: terminal_def)
  qed simp
  with len show ?thesis by simp
qed

section \<open>The reads the model allows\<close>

text \<open>
  The bound on the number of reads does not change what a run returns: a run that has
  returned returns the same with more reads allowed, and when the send phase completes
  and some read of the transport ends the loop (a timeout, or an error that is not
  temporary), a run that is allowed more reads than that returns.
\<close>

lemma collect_more_fuel:
  "collect env n req rs s = (Some r, s') \<Longrightarrow> collect env (n + m) req rs s = (Some r, s')"
  by (induction n arbitrary: rs s)
     (auto simp: conn_ReadFrom_def Let_def split: read_result.splits error.splits sum.splits if_splits)

lemma Do_more_fuel:
  assumes "Do env fuel httpu req timeout k = (Some r, s)"
  shows "Do env (fuel + m) httpu req timeout k = (Some r, s)"
  using assms
proof (cases rule: Do_cases)
  case (sendFails err)
  then show ?thesis by (simp add: Do_def)
next
  case (collecting s1 c)
  from collecting(3) obtain c' where c': "c = Some c'" by (cases c) auto
  from collect_more_fuel [OF collecting(2) [unfolded c'], of m] collecting(1,3) c'
  show ?thesis by (simp add: Do_def split: sum.splits)
qed

lemma collect_returns:
  "endsLoop (readFrom env (nReads s + j)) \<Longrightarrow> j < n \<Longrightarrow> fst (collect env n req rs s) \<noteq> None"
proof (induction n arbitrary: j rs s)
  case 0
  then show ?case by simp
next
  case (Suc n)
  show ?case
  proof (cases "endsLoop (readFrom env (nReads s))")
    case True
    then show ?thesis
      by (cases "readFrom env (nReads s)")
         (auto simp: conn_ReadFrom_def Let_def split: error.splits)
  next
    case False
    with Suc.prems(1) obtain j' where j: "j = Suc j'" by (cases j) auto
    with Suc.prems(2) have j': "j' < n" by simp
    have step: "\<exists>y. fst (collect env n req rs' s1) = Some y"
      if "nReads s1 = Suc (nReads s)" for rs' s1
      using Suc.IH [of s1 j' rs'] Suc.prems(1) j j' that by simp
    from False show ?thesis
      by (cases "readFrom env (nReads s)")
         (auto simp: conn_ReadFrom_def Let_def emit_def step split: error.splits sum.splits)
  qed
qed

lemma sendRound_nReads: "sendRound env b d ifs s = (r, s') \<Longrightarrow> nReads s' = nReads s"
proof (induction ifs arbitrary: s)
  case (Cons ifc ifs)
  from Cons.prems show ?case
  proof (cases rule: sendRound_Cons_cases)
    case (sent n s2)
    with Cons.IH [OF sent(6)] show ?thesis by simp
  qed (auto dest: Cons.IH)
qed simp

lemma sendLoop_nReads: "sendLoop env b d ifs i k s = (r, s') \<Longrightarrow> nReads s' = nReads s"
proof (induction env b d ifs i k s rule: sendLoop.induct)
  case (1 env b d ifs i k s)
  from "1.prems" show ?case
  proof (cases rule: sendLoop_cases)
    case (nextRound s1)
    from "1.IH" [OF nextRound(1) nextRound(2) [symmetric] refl nextRound(3)]
      sendRound_nReads [OF nextRound(2)]
    show ?thesis by (simp add: emit_def)
  qed (auto dest: sendRound_nReads)
qed

lemma sendPhase_nReads: "sendPhase env httpu req timeout k = (r, s') \<Longrightarrow> nReads s' = 0"
  by (auto simp: sendPhase_def encodeRequest_eq conn_SetDeadline_def emit_def enter_def Let_def
      split: sum.splits option.splits dest: sendLoop_nReads)

lemma Do_returns:
  assumes "fst (sendPhase env httpu req timeout k) = None"
    and "endsLoop (readFrom env j)" and "j < fuel"
  shows "fst (Do env fuel httpu req timeout k) \<noteq> None"
proof -
  obtain s1 where sp: "sendPhase env httpu req timeout k = (None, s1)"
    using assms(1) by (metis prod.collapse)
  from sendPhase_nReads [OF sp] assms(2) have "endsLoop (readFrom env (nReads s1 + j))" by simp
  from collect_returns [OF this assms(3), of req "[]"] sp show ?thesis
    by (auto simp: Do_def split: prod.splits option.splits sum.splits)
qed

text \<open>
  A run that is still reading when the reads allowed are used up has made every one
  of them: the loop stops for no other reason.
\<close>

lemma collect_reads_made:
  "collect env n req rs s = (None, s') \<Longrightarrow>
   length (filter isRead (trace s')) = length (filter isRead (trace s)) + n"
proof (induction n arbitrary: rs s)
  case 0
  then show ?case by simp
next
  case (Suc n)
  from Suc.prems show ?case
  proof (cases rule: collect_Suc_cases)
    case (retry err s1)
    from Suc.IH [OF retry(4)] retry(2) show ?thesis by simp
  next
    case (malformed d err s1)
    from Suc.IH [OF malformed(4)] malformed(2) show ?thesis by simp
  next
    case (wellFormed d response s1)
    from Suc.IH [OF wellFormed(4)] wellFormed(2) show ?thesis by simp
  qed simp_all
qed

lemma sendPhase_reads_none:
  assumes "sendPhase env httpu req timeout k = (r, s')"
  shows "filter isRead (trace s') = []"
proof -
  have "\<not> isRead ev" if "ev \<in> set (trace s')" for ev
  proof (cases ev)
    case (EvReadFrom dl r)
    with sendPhase_no_read [OF assms, of dl] that show ?thesis by auto
  qed simp_all
  then show ?thesis by (simp add: filter_empty_conv)
qed

lemma Do_budget:
  assumes "Do env fuel httpu req timeout k = (None, s)"
  shows "length (filter isRead (trace s)) = fuel"
  using assms
proof (cases rule: Do_cases)
  case (collecting s1 c)
  from collecting(3) have "c = None" by (auto split: option.splits sum.splits)
  with collect_reads_made [of env fuel req "[]" s1 s] collecting(2)
    sendPhase_reads_none [OF collecting(1)]
  show ?thesis by simp
qed simp

section \<open>Address resolution\<close>

text \<open>
  C8. When the destination host of the request does not resolve, \<^verbatim>\<open>Do\<close> returns the
  resolver's error and nothing has happened on the socket: no deadline was set and no
  datagram was sent.
\<close>

theorem unresolvable_host_sends_nothing:
  assumes "resolveUDPAddr env (Host req) = Inl err"
  shows "fst (Do env fuel httpu req timeout numSends) = Some ([], Some err) \<and>
    trace (snd (Do env fuel httpu req timeout numSends)) = [] \<and>
    sends (trace (snd (Do env fuel httpu req timeout numSends))) = []"
  using assms
  by (simp add: Do_def sendPhase_def encodeRequest_eq enter_def)

theorem unresolvable_host_witness:
  "resolveUDPAddr noRoute (Host msearch) = Inl (PlainError ''missing port in address'') \<and>
   fst (Do noRoute 4 client msearch 100 2) = Some ([], Some (PlainError ''missing port in address'')) \<and>
   trace (snd (Do noRoute 4 client msearch 100 2)) = [] \<and>
   sends (trace (snd (Do noRoute 4 client msearch 100 2))) = []"
proof -
  have unresolved: "resolveUDPAddr noRoute (Host msearch) = Inl (PlainError ''missing port in address'')"
    by (simp add: noRoute_def)
  from unresolved unresolvable_host_sends_nothing [OF unresolved, of 4 client 100 2]
  show ?thesis by simp
qed

section \<open>A run on the example network\<close>

lemma lan_trace:
  "trace (snd (Do lan 9 client probe 100 1)) =
    [EvSetDeadline 1100 None,
     EvSetMulticastInterface eth0 None, EvWriteTo (Some eth0) probeBytes group 25 None,
     EvSetMulticastInterface wlan0 None, EvWriteTo (Some wlan0) probeBytes group 25 None,
     EvSleep 5,
     EvReadFrom (Some 1100) (ReadOK ''HTTP/1.1 200 OK''),
     EvReadFrom (Some 1100) (ReadOK ''junk''),
     EvLog ''httpu: error while parsing response: %vmalformed HTTP response'',
     EvReadFrom (Some 1100) (ReadErr (NetError False True ''no buffer space'')),
     EvSleep 10,
     EvReadFrom (Some 1100) (ReadOK ''HTTP/1.1 404''),
     EvReadFrom (Some 1100) (ReadErr (NetError True True ''i/o timeout''))]"
  by code_simp

lemma lan_result:
  "fst (Do lan 9 client probe 100 1) = Some ([Response 200 [] [], Response 404 [] []], None)"
  by code_simp

lemma lan_parsed:
  "parsed lan probe (trace (snd (Do lan 9 client probe 100 1))) =
     [Response 200 [] [], Response 404 [] []]"
  unfolding lan_trace by (simp add: lan_def)

section \<open>Collection ends at a timeout\<close>

lemma no_datagram_not_parsed:
  "\<forall>dl d. EvReadFrom dl (ReadOK d) \<notin> set tr \<Longrightarrow> parsed env req tr = []"
  by (induction env req tr rule: parsed.induct) auto

text \<open>
  C3. A read that fails with a timeout error is the last event of the run: \<^verbatim>\<open>Do\<close>
  returns, with a nil error, the responses of the datagrams read so far that parsed, in
  the order in which they were read. When no datagram was read at all, it returns the
  empty sequence and a nil error.
\<close>

theorem timeout_ends_collection:
  assumes "Do env fuel httpu req timeout numSends = (out, s)"
    and "i < length (trace s)"
    and "trace s ! i = EvReadFrom dl (ReadErr (NetError True temporary msg))"
  shows "Suc i = length (trace s) \<and> out = Some (parsed env req (trace s), None) \<and>
    ((\<forall>dl' d. EvReadFrom dl' (ReadOK d) \<notin> set (trace s)) \<longrightarrow> out = Some ([], None))"
proof -
  have ends: "terminal (trace s ! i)" using assms(3) by (simp add: terminal_def)
  from terminal_is_last [OF assms(1,2) ends]
  have len: "Suc i = length (trace s)" and lst: "last (trace s) = trace s ! i"
    and ret: "out \<noteq> None" by simp_all
  from ret obtain rs e where out: "out = Some (rs, e)" by (cases out) auto
  have "e = None"
  proof (cases e)
    case (Some err)
    with Do_terminal [OF assms(1)] out lst assms(2,3) show ?thesis
      by (auto simp: isFatal_def)
  qed simp
  with Do_terminal [OF assms(1)] out have "out = Some (parsed env req (trace s), None)"
    by simp
  with len show ?thesis by (simp add: no_datagram_not_parsed)
qed

theorem timeout_witness:
  "Suc 12 = length (trace (snd (Do lan 9 client probe 100 1))) \<and>
   fst (Do lan 9 client probe 100 1) = Some ([Response 200 [] [], Response 404 [] []], None)"
proof -
  let ?run = "Do lan 9 client probe 100 1"
  have run: "?run = (fst ?run, snd ?run)" by simp
  have i: "12 < length (trace (snd ?run))" by (simp add: lan_trace)
  have ev: "trace (snd ?run) ! 12 =
      EvReadFrom (Some 1100) (ReadErr (NetError True True ''i/o timeout''))"
    by (simp add: lan_trace)
  from timeout_ends_collection [OF run i ev] lan_parsed show ?thesis by simp
qed

section \<open>Two phases\<close>

lemma Do_phases:
  assumes "Do env fuel httpu req timeout k = (out, s)"
  shows "\<exists>n\<le>length (trace s). (\<forall>j<n. \<forall>dl. \<not> collectEvent dl (trace s ! j)) \<and>
     (\<forall>j. n \<le> j \<and> j < length (trace s) \<longrightarrow> collectEvent (deadline s) (trace s ! j))"
proof -
  from Do_trace_split [OF assms] obtain r s1 evs where
    sp: "sendPhase env httpu req timeout k = (r, s1)" and tr: "trace s = trace s1 @ evs"
    and dl: "deadline s = deadline s1" and evs: "\<forall>ev\<in>set evs. collectEvent (deadline s1) ev"
    by blast
  have "\<forall>j<length (trace s1). \<forall>dl. \<not> collectEvent dl (trace s ! j)"
    using sendPhase_no_read [OF sp] tr by (simp add: nth_append)
  moreover have "\<forall>j. length (trace s1) \<le> j \<and> j < length (trace s) \<longrightarrow>
      collectEvent (deadline s) (trace s ! j)"
    using evs tr dl by (auto simp: nth_append)
  moreover have "length (trace s1) \<le> length (trace s)" using tr by simp
  ultimately show ?thesis by blast
qed

lemma collecting_to_the_end:
  assumes "Do env fuel httpu req timeout k = (out, s)" and "i < length (trace s)"
    and "collectEvent dl (trace s ! i)" and "i \<le> j" and "j < length (trace s)"
  shows "collectEvent (deadline s) (trace s ! j)"
proof -
  from Do_phases [OF assms(1)] obtain n where n: "n \<le> length (trace s)"
    "\<forall>j<n. \<forall>dl. \<not> collectEvent dl (trace s ! j)"
    "\<forall>j. n \<le> j \<and> j < length (trace s) \<longrightarrow> collectEvent (deadline s) (trace s ! j)" by blast
  from n(2) assms(3) have "n \<le> i" by (meson not_le)
  with n(3) assms(4,5) show ?thesis by simp
qed

lemma sending_from_the_start:
  assumes "Do env fuel httpu req timeout k = (out, s)" and "i < length (trace s)"
    and "\<forall>dl. \<not> collectEvent dl (trace s ! i)" and "j \<le> i"
  shows "\<not> collectEvent dl (trace s ! j)"
proof -
  from Do_phases [OF assms(1)] obtain n where n: "n \<le> length (trace s)"
    "\<forall>j<n. \<forall>dl. \<not> collectEvent dl (trace s ! j)"
    "\<forall>j. n \<le> j \<and> j < length (trace s) \<longrightarrow> collectEvent (deadline s) (trace s ! j)" by blast
  from n(3) assms(2,3) have "i < n" by (meson not_le)
  with n(2) assms(4) show ?thesis by simp
qed

lemma last_nth: "Suc i = length xs \<Longrightarrow> last xs = xs ! i"
  by (metis diff_Suc_1 last_conv_nth length_0_conv nat.distinct(1))

lemma error_after_read:
  assumes "Do env fuel httpu req timeout k = (Some (rs, Some e), s)" and "i < length (trace s)"
    and "collectEvent dl (trace s ! i)"
  shows "isFatal e \<and> last (trace s) = EvReadFrom (deadline s) (ReadErr e) \<and> rs = []"
proof -
  let ?n = "length (trace s) - 1"
  have n: "Suc ?n = length (trace s)" "i \<le> ?n" "?n < length (trace s)" using assms(2) by simp_all
  from collecting_to_the_end [OF assms(1,2,3) n(2,3)] last_nth [OF n(1)]
  have lst: "collectEvent (deadline s) (last (trace s))" by simp
  from Do_terminal [OF assms(1)]
  have rs: "rs = []" and "(trace s = [] \<and> resolveUDPAddr env (Host req) = Inl e) \<or>
         (trace s = [EvSetDeadline (now env + timeout) None] \<and> interfaces env = Inl e) \<or>
         (trace s \<noteq> [] \<and> callError (last (trace s)) = Some e)" by simp_all
  with lst assms(2) have "callError (last (trace s)) = Some e" by auto
  with lst have "isFatal e \<and> last (trace s) = EvReadFrom (deadline s) (ReadErr e)"
    by (cases "last (trace s)") (auto split: read_result.splits if_splits)
  with rs show ?thesis by simp
qed

section \<open>Runs that fail\<close>

lemma shortLan_trace:
  "trace (snd (Do shortLan 9 client probe 100 1)) =
    [EvSetDeadline 1100 None,
     EvSetMulticastInterface eth0 None, EvWriteTo (Some eth0) probeBytes group 7 None]"
  by code_simp

lemma shortLan_result:
  "fst (Do shortLan 9 client probe 100 1) =
     Some ([], Some (PlainError ''httpu: wrote 7 bytes rather than full 25 in request''))"
  by code_simp

lemma closedLan_trace:
  "trace (snd (Do closedLan 9 client probe 100 1)) =
    [EvSetDeadline 1100 None,
     EvSetMulticastInterface eth0 None, EvWriteTo (Some eth0) probeBytes group 25 None,
     EvSetMulticastInterface wlan0 None, EvWriteTo (Some wlan0) probeBytes group 25 None,
     EvSleep 5,
     EvReadFrom (Some 1100) (ReadOK ''HTTP/1.1 200 OK''),
     EvReadFrom (Some 1100) (ReadErr (PlainError ''use of closed network connection''))]"
  by code_simp

section \<open>Read errors\<close>

text \<open>
  C6. A read that fails with an error that is not a timeout. When the error is a
  temporary network error, the next event is a sleep of 10 milliseconds and the event
  after it is the next read; the trace ends at the sleep only when every read the model
  allows has been made. The error is never the one \<^verbatim>\<open>Do\<close> returns, and the
  responses returned are those of the datagrams that parsed. Any other error ends the
  run at once: \<^verbatim>\<open>Do\<close> returns it, with no responses.
\<close>

theorem read_error_retried_or_fatal:
  assumes "Do env fuel httpu req timeout numSends = (out, s)"
    and "i < length (trace s)"
    and "trace s ! i = EvReadFrom dl (ReadErr err)"
    and "\<not> isTimeout err"
  shows "(isRetried err \<longrightarrow>
       Suc i < length (trace s) \<and> trace s ! Suc i = EvSleep 10 \<and>
       (Suc (Suc i) < length (trace s) \<and> isRead (trace s ! Suc (Suc i)) \<or>
        Suc (Suc i) = length (trace s) \<and> out = None \<and>
          length (filter isRead (trace s)) = fuel) \<and>
       (\<forall>rs. out \<noteq> Some (rs, Some err)) \<and>
       (\<forall>rs. out = Some (rs, None) \<longrightarrow> rs = parsed env req (trace s))) \<and>
     (\<not> isRetried err \<longrightarrow> Suc i = length (trace s) \<and> out = Some ([], Some err))"
proof (intro conjI impI)
  assume retried: "isRetried err"
  then have quiet: "\<not> terminal (trace s ! i)" and open': "\<not> settled env req (trace s ! i)"
    using assms(3,4) by (simp_all add: terminal_def isRetried_not_fatal)
  from unsettled_has_next [OF assms(1,2) quiet open'] assms(3) retried
  show nxt: "Suc i < length (trace s)" and sleep: "trace s ! Suc i = EvSleep 10" by simp_all
  have "\<not> terminal (trace s ! Suc i)" "\<not> isSetDeadline (trace s ! Suc i)"
    using sleep by (simp_all add: terminal_def)
  from settled_continues [OF assms(1) nxt this] sleep
  have "Suc (Suc i) < length (trace s) \<and> isRead (trace s ! Suc (Suc i)) \<or>
        Suc (Suc i) = length (trace s) \<and> out = None" by auto
  then show "Suc (Suc i) < length (trace s) \<and> isRead (trace s ! Suc (Suc i)) \<or>
        Suc (Suc i) = length (trace s) \<and> out = None \<and>
          length (filter isRead (trace s)) = fuel"
    using Do_budget assms(1) by blast
  show "\<forall>rs. out \<noteq> Some (rs, Some err)"
  proof (intro allI notI)
    fix rs assume "out = Some (rs, Some err)"
    with assms(1) have "Do env fuel httpu req timeout numSends = (Some (rs, Some err), s)" by simp
    from error_after_read [OF this assms(2), of dl] assms(3) have "isFatal err" by simp
    with retried show False by (simp add: isRetried_not_fatal)
  qed
  show "\<forall>rs. out = Some (rs, None) \<longrightarrow> rs = parsed env req (trace s)"
    using Do_terminal [OF assms(1)] by auto
next
  assume "\<not> isRetried err"
  with assms(4) have fatal: "isFatal err" by (simp add: isFatal_def)
  with assms(3) have ends: "terminal (trace s ! i)" by (simp add: terminal_def)
  from terminal_is_last [OF assms(1,2) ends]
  have len: "Suc i = length (trace s)" and lst: "last (trace s) = trace s ! i"
    and ret: "out \<noteq> None" by simp_all
  from len show "Suc i = length (trace s)" .
  from ret obtain rs e where out: "out = Some (rs, e)" by (cases out) auto
  show "out = Some ([], Some err)"
  proof (cases e)
    case None
    with Do_terminal [OF assms(1)] out lst assms(3,4) show ?thesis by simp
  next
    case (Some e')
    with assms(1) out have "Do env fuel httpu req timeout numSends = (Some (rs, Some e'), s)"
      by simp
    from error_after_read [OF this assms(2), of dl] assms(3) lst Some out show ?thesis by simp
  qed
qed

theorem read_error_witness:
  "trace (snd (Do lan 9 client probe 100 1)) ! 10 = EvSleep 10 \<and>
   isRead (trace (snd (Do lan 9 client probe 100 1)) ! 11) \<and>
   fst (Do lan 9 client probe 100 1) = Some ([Response 200 [] [], Response 404 [] []], None) \<and>
   Suc 7 = length (trace (snd (Do closedLan 9 client probe 100 1))) \<and>
   fst (Do closedLan 9 client probe 100 1) =
     Some ([], Some (PlainError ''use of closed network connection''))"
proof -
  let ?run = "Do lan 9 client probe 100 1"
  have run: "?run = (fst ?run, snd ?run)" by simp
  have i: "9 < length (trace (snd ?run))" by (simp add: lan_trace)
  have ev: "trace (snd ?run) ! 9 =
      EvReadFrom (Some 1100) (ReadErr (NetError False True ''no buffer space''))"
    by (simp add: lan_trace)
  have nt: "\<not> isTimeout (NetError False True ''no buffer space'')" by simp
  let ?run' = "Do closedLan 9 client probe 100 1"
  have run': "?run' = (fst ?run', snd ?run')" by simp
  have i': "7 < length (trace (snd ?run'))" by (simp add: closedLan_trace)
  have ev': "trace (snd ?run') ! 7 =
      EvReadFrom (Some 1100) (ReadErr (PlainError ''use of closed network connection''))"
    by (simp add: closedLan_trace)
  have nt': "\<not> isTimeout (PlainError ''use of closed network connection'')" by simp
  from read_error_retried_or_fatal [OF run i ev nt] read_error_retried_or_fatal [OF run' i' ev' nt']
    lan_result
  show ?thesis by (simp add: lan_trace)
qed

section \<open>Write failures\<close>

text \<open>
  C7. A write that fails, or that writes fewer bytes than the request has, is the last
  event of the run: \<^verbatim>\<open>Do\<close> returns the error of the write (for a short write, the
  error it builds) and no responses, and no read has taken place.
\<close>

theorem write_failure_is_fatal:
  assumes "Do env fuel httpu req timeout numSends = (out, s)"
    and "i < length (trace s)"
    and "trace s ! i = EvWriteTo via p a n w"
    and "w \<noteq> None \<or> n < int (length p)"
  shows "Suc i = length (trace s) \<and>
    out = Some ([], Some (case w of Some err \<Rightarrow> err | None \<Rightarrow> shortWrite n (int (length p)))) \<and>
    (\<forall>dl r. EvReadFrom dl r \<notin> set (trace s))"
proof -
  let ?e = "case w of Some err \<Rightarrow> err | None \<Rightarrow> shortWrite n (int (length p))"
  have ce: "callError (trace s ! i) = Some ?e"
    using assms(3,4) by (auto split: option.splits)
  then have ends: "terminal (trace s ! i)" by (simp add: terminal_def)
  from terminal_is_last [OF assms(1,2) ends]
  have len: "Suc i = length (trace s)" and lst: "last (trace s) = trace s ! i"
    and ret: "out \<noteq> None" by simp_all
  from ret obtain rs e where out: "out = Some (rs, e)" by (cases out) auto
  have "out = Some ([], Some ?e)"
  proof (cases e)
    case None
    with Do_terminal [OF assms(1)] out lst assms(3) show ?thesis by simp
  next
    case (Some e')
    with Do_terminal [OF assms(1)] out lst assms(2,3) ce show ?thesis by auto
  qed
  moreover have "\<forall>dl r. EvReadFrom dl r \<notin> set (trace s)"
  proof (intro allI notI)
    fix dl r assume "EvReadFrom dl r \<in> set (trace s)"
    then obtain j where j: "j < length (trace s)" "trace s ! j = EvReadFrom dl r"
      by (auto simp: in_set_conv_nth)
    from j(1) len have "j \<le> i" by simp
    have "\<forall>dl. \<not> collectEvent dl (trace s ! i)" using assms(3) by simp
    from sending_from_the_start [OF assms(1,2) this \<open>j \<le> i\<close>, of dl] j(2)
    show False by simp
  qed
  ultimately show ?thesis using len by simp
qed

theorem write_failure_witness:
  "Suc 2 = length (trace (snd (Do shortLan 9 client probe 100 1))) \<and>
   fst (Do shortLan 9 client probe 100 1) =
     Some ([], Some (PlainError ''httpu: wrote 7 bytes rather than full 25 in request'')) \<and>
   (\<forall>dl r. EvReadFrom dl r \<notin> set (trace (snd (Do shortLan 9 client probe 100 1))))"
proof -
  let ?run = "Do shortLan 9 client probe 100 1"
  have run: "?run = (fst ?run, snd ?run)" by simp
  have i: "2 < length (trace (snd ?run))" by (simp add: shortLan_trace)
  have ev: "trace (snd ?run) ! 2 = EvWriteTo (Some eth0) probeBytes group 7 None"
    by (simp add: shortLan_trace)
  have short: "None \<noteq> (None :: error option) \<or> 7 < int (length probeBytes)"
    by (simp add: probeBytes_def CRLF_def)
  from write_failure_is_fatal [OF run i ev short] shortLan_result show ?thesis by simp
qed

section \<open>Malformed datagrams\<close>

text \<open>
  C5. A datagram that does not parse is followed by a line in the log, and the event
  after the log line is the next read; the trace ends at the log line only when every
  read the model allows has been made. The datagram adds nothing to the result: the
  responses returned are those of the datagrams before it and after it that parse. An
  error returned by a run that read such a datagram is the error of a failed read.
\<close>

theorem malformed_datagram_is_skipped:
  assumes "Do env fuel httpu req timeout numSends = (out, s)"
    and "i < length (trace s)"
    and "trace s ! i = EvReadFrom dl (ReadOK d)"
    and "readResponse env (take 2048 d) req = Inl err"
  shows "Suc i < length (trace s) \<and> trace s ! Suc i = EvLog (parseFailure err) \<and>
    (Suc (Suc i) < length (trace s) \<and> isRead (trace s ! Suc (Suc i)) \<or>
     Suc (Suc i) = length (trace s) \<and> out = None \<and>
       length (filter isRead (trace s)) = fuel) \<and>
    (\<forall>rs. out = Some (rs, None) \<longrightarrow>
       rs = parsed env req (take i (trace s)) @ parsed env req (drop (Suc i) (trace s))) \<and>
    (\<forall>rs e. out = Some (rs, Some e) \<longrightarrow>
       isFatal e \<and> last (trace s) = EvReadFrom (deadline s) (ReadErr e))"
proof -
  have quiet: "\<not> terminal (trace s ! i)" and open': "\<not> settled env req (trace s ! i)"
    using assms(3,4) by (simp_all add: terminal_def)
  from unsettled_has_next [OF assms(1,2) quiet open'] assms(3,4)
  have nxt: "Suc i < length (trace s)" and logged: "trace s ! Suc i = EvLog (parseFailure err)"
    by simp_all
  have "\<not> terminal (trace s ! Suc i)" "\<not> isSetDeadline (trace s ! Suc i)"
    using logged by (simp_all add: terminal_def)
  from settled_continues [OF assms(1) nxt this] logged
  have "Suc (Suc i) < length (trace s) \<and> isRead (trace s ! Suc (Suc i)) \<or>
     Suc (Suc i) = length (trace s) \<and> out = None" by auto
  then have goes_on: "Suc (Suc i) < length (trace s) \<and> isRead (trace s ! Suc (Suc i)) \<or>
     Suc (Suc i) = length (trace s) \<and> out = None \<and>
       length (filter isRead (trace s)) = fuel"
    using Do_budget assms(1) by blast
  have "trace s = take i (trace s) @ trace s ! i # drop (Suc i) (trace s)"
    using assms(2) by (simp add: id_take_nth_drop)
  then have "parsed env req (trace s) =
      parsed env req (take i (trace s)) @ parsed env req (trace s ! i # drop (Suc i) (trace s))"
    by (metis parsed_append)
  then have split: "parsed env req (trace s) =
      parsed env req (take i (trace s)) @ parsed env req (drop (Suc i) (trace s))"
    using assms(3,4) by simp
  have res: "\<forall>rs. out = Some (rs, None) \<longrightarrow>
       rs = parsed env req (take i (trace s)) @ parsed env req (drop (Suc i) (trace s))"
    using Do_terminal [OF assms(1)] split by auto
  have "\<forall>rs e. out = Some (rs, Some e) \<longrightarrow>
       isFatal e \<and> last (trace s) = EvReadFrom (deadline s) (ReadErr e)"
  proof (intro allI impI)
    fix rs e assume "out = Some (rs, Some e)"
    with assms(1) have "Do env fuel httpu req timeout numSends = (Some (rs, Some e), s)" by simp
    from error_after_read [OF this assms(2), of dl] assms(3)
    show "isFatal e \<and> last (trace s) = EvReadFrom (deadline s) (ReadErr e)" by simp
  qed
  with nxt logged goes_on res show ?thesis by blast
qed

theorem malformed_datagram_witness:
  "trace (snd (Do lan 9 client probe 100 1)) ! Suc 7 =
     EvLog ''httpu: error while parsing response: %vmalformed HTTP response'' \<and>
   isRead (trace (snd (Do lan 9 client probe 100 1)) ! Suc (Suc 7)) \<and>
   fst (Do lan 9 client probe 100 1) = Some ([Response 200 [] [], Response 404 [] []], None)"
proof -
  let ?run = "Do lan 9 client probe 100 1"
  have run: "?run = (fst ?run, snd ?run)" by simp
  have i: "7 < length (trace (snd ?run))" by (simp add: lan_trace)
  have ev: "trace (snd ?run) ! 7 = EvReadFrom (Some 1100) (ReadOK ''junk'')"
    by (simp add: lan_trace)
  have bad: "readResponse lan (take 2048 ''junk'') probe = Inl (PlainError ''malformed HTTP response'')"
    by (simp add: lan_def)
  from malformed_datagram_is_skipped [OF run i ev bad] lan_result
  show ?thesis by (simp add: lan_trace parseFailure_def)
qed

section \<open>A completed send phase\<close>

lemma sends_withPauses: "sends (withPauses segs) = concat (map sends segs)"
  by (induction segs) (simp_all add: withPauses_def sends_append)

lemma count_withPauses:
  "\<forall>seg\<in>set segs. EvSleep 5 \<notin> set seg \<Longrightarrow> count_list (withPauses segs) (EvSleep 5) = length segs"
  by (induction segs) (simp_all add: withPauses_def count_list_0_iff)

lemma concat_same: "\<forall>x\<in>set xss. f x = ys \<Longrightarrow> concat (map f xss) = concat (replicate (length xss) ys)"
  by (induction xss) simp_all

lemma length_concat_replicate: "length (concat (replicate n xs)) = length xs * n"
  by (induction n) simp_all

lemma set_concat_replicate: "x \<in> set (concat (replicate n xs)) \<Longrightarrow> x \<in> set xs"
  by (induction n) auto

lemma roundEvent_not_pause: "roundEvent b d S ev \<Longrightarrow> ev \<noteq> EvSleep 5 \<and> \<not> isSetDeadline ev"
  by (cases ev) auto

lemma collectEvent_not_pause: "collectEvent dl ev \<Longrightarrow> ev \<noteq> EvSleep 5 \<and> \<not> isSetDeadline ev"
  by (cases ev) auto

lemma collectEvent_iff:
  "collectEvent dl ev \<longleftrightarrow> (\<exists>r. ev = EvReadFrom dl r) \<or> ev = EvSleep 10 \<or> (\<exists>l. ev = EvLog l)"
  by (cases ev) auto

lemma in_withPauses: "ev \<in> set (withPauses segs) \<Longrightarrow> ev = EvSleep 5 \<or> (\<exists>seg\<in>set segs. ev \<in> set seg)"
  by (induction segs) (auto simp: withPauses_def)

lemma Do_completed:
  assumes "sendPhase env httpu req timeout k = (None, s1)"
    and "Do env fuel httpu req timeout k = (out, s)"
  shows "\<exists>buf dest ifs segs evs. encodeRequest req = Inr buf \<and>
     resolveUDPAddr env (Host req) = Inr dest \<and> interfaces env = Inr ifs \<and>
     deadline s = Some (now env + timeout) \<and>
     trace s = EvSetDeadline (now env + timeout) None # withPauses segs @ evs \<and>
     length segs = nat k \<and>
     (\<forall>seg\<in>set segs. (\<forall>ev\<in>set seg. roundEvent buf dest (set ifs) ev) \<and>
        sends seg = sentVia buf dest ifs) \<and>
     (\<forall>ev\<in>set evs. collectEvent (Some (now env + timeout)) ev) \<and>
     (0 < fuel \<longrightarrow> (\<exists>rd rest. evs = EvReadFrom (Some (now env + timeout)) rd # rest))"
proof -
  from Do_trace_split [OF assms(2)] assms(1) obtain evs where
    evs: "trace s = trace s1 @ evs" "deadline s = deadline s1"
      "\<forall>ev\<in>set evs. collectEvent (deadline s1) ev"
      "0 < fuel \<longrightarrow> (\<exists>rd rest. evs = EvReadFrom (deadline s1) rd # rest)" by auto
  from sendPhase_completed [OF assms(1)] obtain buf dest ifs segs where
    sp: "encodeRequest req = Inr buf" "resolveUDPAddr env (Host req) = Inr dest"
      "interfaces env = Inr ifs" "deadline s1 = Some (now env + timeout)"
      "trace s1 = EvSetDeadline (now env + timeout) None # withPauses segs"
      "length segs = nat k"
      "\<forall>seg\<in>set segs. (\<forall>ev\<in>set seg. roundEvent buf dest (set ifs) ev) \<and>
        sends seg = sentVia buf dest ifs" by blast
  have "trace s = EvSetDeadline (now env + timeout) None # withPauses segs @ evs"
    using evs(1) sp(5) by simp
  with evs(2-4) sp(1-4,6,7) show ?thesis by (intro exI conjI) auto
qed

lemma sent_payload:
  "\<forall>ev\<in>set tr. isSetDeadline ev \<or> ev = EvSleep 5 \<or> (\<exists>dest ifs. roundEvent buf dest (set ifs) ev)
   \<Longrightarrow> (via, p, a) \<in> set (sends tr) \<Longrightarrow> p = buf"
  by (induction tr rule: sends.induct) auto

lemma sent_via:
  "\<forall>ev\<in>set tr. isSetDeadline ev \<or> ev = EvSleep 5 \<or> (\<exists>dest ifs. roundEvent buf dest (set ifs) ev)
   \<Longrightarrow> (via, p, a) \<in> set (sends tr) \<Longrightarrow> \<exists>ifc. via = Some ifc \<and> multicastCapable ifc"
  by (induction tr rule: sends.induct) (auto split: option.splits)

section \<open>More runs on the example network\<close>

lemma lan_sendPhase: "fst (sendPhase lan client probe 100 1) = None"
  by code_simp

lemma probe_encoded: "encodeRequest probe = Inr probeBytes"
  by (simp add: encodeRequest_eq probe_def probeBytes_def headerLines_def headerLine_def)

lemma lan_setup:
  "resolveUDPAddr lan (Host probe) = Inr group \<and> setDeadline lan (now lan + 100) = None \<and>
   interfaces lan = Inr [lo, eth0, wlan0] \<and> now lan + 100 = 1100"
  by (simp add: lan_def group_def)

lemma example_flags: "\<not> multicastCapable lo \<and> multicastCapable eth0 \<and> multicastCapable wlan0"
  by (simp add: multicastCapable_def lo_def eth0_def wlan0_def FlagMulticast_def)

lemma lan_sends:
  "sends (trace (snd (Do lan 9 client probe 100 1))) =
     [(Some eth0, probeBytes, group), (Some wlan0, probeBytes, group)]"
  by (simp add: lan_trace)

lemma lan_no_rounds_trace:
  "trace (snd (Do lan 9 client probe 100 0)) =
    [EvSetDeadline 1100 None,
     EvReadFrom (Some 1100) (ReadOK ''HTTP/1.1 200 OK''),
     EvReadFrom (Some 1100) (ReadOK ''junk''),
     EvLog ''httpu: error while parsing response: %vmalformed HTTP response'',
     EvReadFrom (Some 1100) (ReadErr (NetError False True ''no buffer space'')),
     EvSleep 10,
     EvReadFrom (Some 1100) (ReadOK ''HTTP/1.1 404''),
     EvReadFrom (Some 1100) (ReadErr (NetError True True ''i/o timeout''))]"
  by code_simp

lemma lan_no_rounds_result:
  "fst (Do lan 9 client probe 100 0) = Some ([Response 200 [] [], Response 404 [] []], None)"
  by code_simp

section \<open>The encoded request\<close>

text \<open>
  C1. The buffer that \<^verbatim>\<open>Do\<close> builds is the request line, with \<^verbatim>\<open>GET\<close> for an empty
  method, then one line \<^verbatim>\<open>Name: value\<close> for each value of each header, then an empty
  line, each line ended by CR LF, and nothing after it. Every datagram that \<^verbatim>\<open>Do\<close>
  writes carries this buffer.
\<close>

theorem encoded_request_is_sent:
  "encodeRequest req = Inr ((if Method req = [] then ''GET'' else Method req) @ '' '' @
      RequestURI req @ '' HTTP/1.1'' @ CRLF @
      concat (map (\<lambda>(name, vs). concat (map (\<lambda>v. name @ '': '' @ v @ CRLF) vs)) (Header req)) @
      CRLF) \<and>
   (Do env fuel httpu req timeout numSends = (out, s) \<longrightarrow>
      (\<forall>(via, payload, addr)\<in>set (sends (trace s)). encodeRequest req = Inr payload))"
proof
  show "encodeRequest req = Inr ((if Method req = [] then ''GET'' else Method req) @ '' '' @
      RequestURI req @ '' HTTP/1.1'' @ CRLF @
      concat (map (\<lambda>(name, vs). concat (map (\<lambda>v. name @ '': '' @ v @ CRLF) vs)) (Header req)) @
      CRLF)"
    by (simp add: encodeRequest_eq headerLines_def headerLine_def [abs_def])
  show "Do env fuel httpu req timeout numSends = (out, s) \<longrightarrow>
      (\<forall>(via, payload, addr)\<in>set (sends (trace s)). encodeRequest req = Inr payload)"
  proof
    assume run: "Do env fuel httpu req timeout numSends = (out, s)"
    obtain buf where buf: "encodeRequest req = Inr buf" by (simp add: encodeRequest_eq)
    from Do_trace_split [OF run] obtain r s1 evs where
      sp: "sendPhase env httpu req timeout numSends = (r, s1)" and tr: "trace s = trace s1 @ evs"
      and evs: "\<forall>ev\<in>set evs. collectEvent (deadline s1) ev" by blast
    have "sends (trace s) = sends (trace s1)"
      using tr collectEvent_not_sent [OF evs] by (simp add: sends_append)
    with sent_payload [OF sendPhase_any [OF sp buf]] buf
    show "\<forall>(via, payload, addr)\<in>set (sends (trace s)). encodeRequest req = Inr payload"
      by auto
  qed
qed

theorem encoded_request_witness:
  "encodeRequest probe = Inr (''GET / HTTP/1.1'' @ CRLF @ ''MX: 2'' @ CRLF @ CRLF) \<and>
   sends (trace (snd (Do lan 9 client probe 100 1))) =
     [(Some eth0, probeBytes, group), (Some wlan0, probeBytes, group)] \<and>
   encodeRequest probe = Inr probeBytes"
proof -
  let ?run = "Do lan 9 client probe 100 1"
  have run: "?run = (fst ?run, snd ?run)" by simp
  from encoded_request_is_sent [of probe lan 9 client 100 1 "fst ?run" "snd ?run"] run lan_sends
  show ?thesis by (simp add: probe_def probeBytes_def)
qed

section \<open>The deadline\<close>

text \<open>
  C4. In a call that returns a nil error, the first event on the socket is the setting
  of the deadline \<^verbatim>\<open>now + timeout\<close>, so it precedes every write; the deadline is not
  set again, and every read of the call is made with this deadline in force.
\<close>

theorem deadline_set_before_sending:
  assumes "Do env fuel httpu req timeout numSends = (Some (rs, None), s)"
  shows "\<exists>rest. trace s = EvSetDeadline (now env + timeout) None # rest \<and>
    (\<forall>ev\<in>set rest. \<not> isSetDeadline ev) \<and>
    (\<forall>dl r. EvReadFrom dl r \<in> set (trace s) \<longrightarrow> dl = Some (now env + timeout)) \<and>
    deadline s = Some (now env + timeout)"
  using assms
proof (cases rule: Do_cases)
  case (collecting s1 c)
  from Do_completed [OF collecting(1) assms] obtain buf dest ifs segs evs where
    c: "deadline s = Some (now env + timeout)"
      "trace s = EvSetDeadline (now env + timeout) None # withPauses segs @ evs"
      "\<forall>seg\<in>set segs. (\<forall>ev\<in>set seg. roundEvent buf dest (set ifs) ev) \<and>
        sends seg = sentVia buf dest ifs"
      "\<forall>ev\<in>set evs. collectEvent (Some (now env + timeout)) ev" by blast
  have rest: "\<not> isSetDeadline ev \<and> (\<forall>dl r. ev = EvReadFrom dl r \<longrightarrow> dl = Some (now env + timeout))"
    if "ev \<in> set (withPauses segs @ evs)" for ev
  proof -
    from that consider "ev = EvSleep 5" | seg where "seg \<in> set segs" "ev \<in> set seg"
      | "ev \<in> set evs" using in_withPauses by auto
    then show ?thesis
    proof cases
      case 1
      then show ?thesis by simp
    next
      case 2
      with c(3) have "roundEvent buf dest (set ifs) ev" by blast
      then show ?thesis by (cases ev) auto
    next
      case 3
      with c(4) have "collectEvent (Some (now env + timeout)) ev" by blast
      then show ?thesis by (cases ev) auto
    qed
  qed
  show ?thesis
  proof (intro exI [of _ "withPauses segs @ evs"] conjI)
    show "trace s = EvSetDeadline (now env + timeout) None # withPauses segs @ evs" by (rule c(2))
    show "\<forall>ev\<in>set (withPauses segs @ evs). \<not> isSetDeadline ev" using rest by blast
    show "\<forall>dl r. EvReadFrom dl r \<in> set (trace s) \<longrightarrow> dl = Some (now env + timeout)"
      using rest c(2) by auto
    show "deadline s = Some (now env + timeout)" by (rule c(1))
  qed
qed simp

theorem deadline_witness:
  "\<exists>rest. trace (snd (Do lan 9 client probe 100 1)) = EvSetDeadline (now lan + 100) None # rest \<and>
    (\<forall>ev\<in>set rest. \<not> isSetDeadline ev) \<and>
    (\<forall>dl r. EvReadFrom dl r \<in> set (trace (snd (Do lan 9 client probe 100 1))) \<longrightarrow>
       dl = Some (now lan + 100)) \<and>
    deadline (snd (Do lan 9 client probe 100 1)) = Some (now lan + 100)"
proof -
  let ?run = "Do lan 9 client probe 100 1"
  have run: "?run = (Some ([Response 200 [] [], Response 404 [] []], None), snd ?run)"
    using lan_result by (metis prod.collapse)
  show ?thesis by (rule deadline_set_before_sending [OF run])
qed

section \<open>Sends per interface and round\<close>

text \<open>
  C2, as the code has it. In every call with \<^verbatim>\<open>numSends\<close> at least 1, every datagram
  written carries the encoded request, and none goes out through an interface without
  the multicast flag. A send that fails ends the call at once, so the count is that of
  the calls whose send phase completes: then the datagrams written are, for each of the
  \<^verbatim>\<open>numSends\<close> rounds, one per multicast-capable interface in the order of the
  interface list, \<open>N * k\<close> in all.
\<close>

theorem sends_per_interface_and_round:
  assumes "1 \<le> numSends"
    and "Do env fuel httpu req timeout numSends = (out, s)"
    and "interfaces env = Inr ifs"
  shows "(\<forall>(via, payload, addr)\<in>set (sends (trace s)). encodeRequest req = Inr payload) \<and>
    (\<forall>ifc p a. \<not> multicastCapable ifc \<longrightarrow> (Some ifc, p, a) \<notin> set (sends (trace s))) \<and>
    (fst (sendPhase env httpu req timeout numSends) = None \<longrightarrow>
       length (sends (trace s)) = length (filter multicastCapable ifs) * nat numSends \<and>
       (\<forall>buf dest. encodeRequest req = Inr buf \<and> resolveUDPAddr env (Host req) = Inr dest \<longrightarrow>
          sends (trace s) = concat (replicate (nat numSends)
            (map (\<lambda>ifc. (Some ifc, buf, dest)) (filter multicastCapable ifs)))))"
proof (intro conjI impI)
  obtain buf where buf: "encodeRequest req = Inr buf" by (simp add: encodeRequest_eq)
  from Do_trace_split [OF assms(2)] obtain r s1 evs where
    sp: "sendPhase env httpu req timeout numSends = (r, s1)" and tr: "trace s = trace s1 @ evs"
    and evs: "\<forall>ev\<in>set evs. collectEvent (deadline s1) ev" by blast
  have same: "sends (trace s) = sends (trace s1)"
    using tr collectEvent_not_sent [OF evs] by (simp add: sends_append)
  note any = sendPhase_any [OF sp buf]
  show "\<forall>(via, payload, addr)\<in>set (sends (trace s)). encodeRequest req = Inr payload"
    using sent_payload [OF any] buf same by auto
  show "\<forall>ifc p a. \<not> multicastCapable ifc \<longrightarrow> (Some ifc, p, a) \<notin> set (sends (trace s))"
    using sent_via [OF any] same by fastforce
next
  assume "fst (sendPhase env httpu req timeout numSends) = None"
  then obtain s1 where sp: "sendPhase env httpu req timeout numSends = (None, s1)"
    by (metis prod.collapse)
  from Do_completed [OF sp assms(2)] assms(3) obtain buf dest segs evs where
    c: "encodeRequest req = Inr buf" "resolveUDPAddr env (Host req) = Inr dest"
      "trace s = EvSetDeadline (now env + timeout) None # withPauses segs @ evs"
      "length segs = nat numSends"
      "\<forall>seg\<in>set segs. (\<forall>ev\<in>set seg. roundEvent buf dest (set ifs) ev) \<and>
        sends seg = sentVia buf dest ifs"
      "\<forall>ev\<in>set evs. collectEvent (Some (now env + timeout)) ev" by auto
  have "sends (trace s) = concat (map sends segs)"
    using c(3) collectEvent_not_sent [OF c(6)] by (simp add: sends_append sends_withPauses)
  also have "\<dots> = concat (replicate (length segs) (sentVia buf dest ifs))"
    using c(5) by (intro concat_same) blast
  finally have eq: "sends (trace s) = concat (replicate (nat numSends) (sentVia buf dest ifs))"
    using c(4) by simp
  then show "length (sends (trace s)) = length (filter multicastCapable ifs) * nat numSends"
    by (simp add: length_concat_replicate sentVia_def)
  show "\<forall>buf dest. encodeRequest req = Inr buf \<and> resolveUDPAddr env (Host req) = Inr dest \<longrightarrow>
          sends (trace s) = concat (replicate (nat numSends)
            (map (\<lambda>ifc. (Some ifc, buf, dest)) (filter multicastCapable ifs)))"
    using eq c(1,2) by (simp add: sentVia_def)
qed

theorem sends_witness:
  "sends (trace (snd (Do lan 9 client probe 100 1))) =
     [(Some eth0, probeBytes, group), (Some wlan0, probeBytes, group)] \<and>
   length (sends (trace (snd (Do lan 9 client probe 100 1)))) =
     length (filter multicastCapable [lo, eth0, wlan0]) * nat 1 \<and>
   (\<forall>p a. (Some lo, p, a) \<notin> set (sends (trace (snd (Do lan 9 client probe 100 1)))))"
proof -
  let ?run = "Do lan 9 client probe 100 1"
  have run: "?run = (fst ?run, snd ?run)" by simp
  have k: "(1::int) \<le> 1" by simp
  have ifs: "interfaces lan = Inr [lo, eth0, wlan0]" using lan_setup by simp
  note sent = sends_per_interface_and_round [OF k run ifs]
  from sent lan_sendPhase have "length (sends (trace (snd ?run))) =
     length (filter multicastCapable [lo, eth0, wlan0]) * nat 1" by blast
  moreover from sent example_flags
  have "\<forall>p a. (Some lo, p, a) \<notin> set (sends (trace (snd ?run)))" by blast
  ultimately show ?thesis using lan_sends by blast
qed

text \<open>
  The claim as stated, for every call, fails where a write is short: two interfaces are
  multicast-capable, one round is asked for, and one datagram is attempted.
\<close>

theorem send_count_counterexample:
  "interfaces shortLan = Inr [lo, eth0, wlan0] \<and>
   length (filter multicastCapable [lo, eth0, wlan0]) = 2 \<and>
   length (sends (trace (snd (Do shortLan 9 client probe 100 1)))) = 1 \<and>
   length (sends (trace (snd (Do shortLan 9 client probe 100 1)))) \<noteq>
     length (filter multicastCapable [lo, eth0, wlan0]) * nat 1"
  by (simp add: shortLan_trace example_flags) (simp add: shortLan_def lan_def)

section \<open>The pause between rounds\<close>

text \<open>
  C9, as the code has it. The sleep of 5 milliseconds is the last statement of the body
  of the outer loop, so it follows every round, also the final one. In a call whose send
  phase completes, the trace after the setting of the deadline is \<^verbatim>\<open>numSends\<close> rounds
  (none when \<^verbatim>\<open>numSends\<close> is not positive), each made of interface bindings and
  writes only, one write per multicast-capable interface, and each followed by one
  pause; all that comes after the last pause are the events of the read loop, which
  begin with a read.
\<close>

theorem pause_after_every_round:
  assumes "sendPhase env httpu req timeout numSends = (None, s1)"
    and "Do env fuel httpu req timeout numSends = (out, s)"
    and "interfaces env = Inr ifs"
  shows "\<exists>rounds evs.
    trace s = EvSetDeadline (now env + timeout) None #
      concat (map (\<lambda>round. round @ [EvSleep 5]) rounds) @ evs \<and>
    length rounds = nat numSends \<and>
    (\<forall>round\<in>set rounds.
       (\<forall>ev\<in>set round. (\<exists>ifc r. ev = EvSetMulticastInterface ifc r) \<or>
          (\<exists>via p a n r. ev = EvWriteTo via p a n r)) \<and>
       length (sends round) = length (filter multicastCapable ifs)) \<and>
    (\<forall>ev\<in>set evs. (\<exists>dl r. ev = EvReadFrom dl r) \<or> ev = EvSleep 10 \<or> (\<exists>l. ev = EvLog l)) \<and>
    (0 < fuel \<longrightarrow> (\<exists>dl r rest. evs = EvReadFrom dl r # rest)) \<and>
    count_list (trace s) (EvSleep 5) = nat numSends"
proof -
  from Do_completed [OF assms(1,2)] obtain buf dest ifs' segs evs where
    c0: "interfaces env = Inr ifs'"
      "trace s = EvSetDeadline (now env + timeout) None # withPauses segs @ evs"
      "length segs = nat numSends"
      "\<forall>seg\<in>set segs. (\<forall>ev\<in>set seg. roundEvent buf dest (set ifs') ev) \<and>
        sends seg = sentVia buf dest ifs'"
      "\<forall>ev\<in>set evs. collectEvent (Some (now env + timeout)) ev"
      "0 < fuel \<longrightarrow> (\<exists>rd rest. evs = EvReadFrom (Some (now env + timeout)) rd # rest)"
    by blast
  from c0(1) assms(3) have "ifs' = ifs" by simp
  note c = c0(2-6) [unfolded this]
  have kinds: "(\<exists>ifc r. ev = EvSetMulticastInterface ifc r) \<or>
          (\<exists>via p a n r. ev = EvWriteTo via p a n r)" if "roundEvent buf dest (set ifs) ev" for ev
    using that by (cases ev) auto
  have segs: "\<forall>seg\<in>set segs.
       (\<forall>ev\<in>set seg. (\<exists>ifc r. ev = EvSetMulticastInterface ifc r) \<or>
          (\<exists>via p a n r. ev = EvWriteTo via p a n r)) \<and>
       length (sends seg) = length (filter multicastCapable ifs)"
    using c(3) kinds by (simp add: sentVia_def)
  have quiet: "\<forall>seg\<in>set segs. EvSleep 5 \<notin> set seg"
    using c(3) roundEvent_not_pause by blast
  have evs: "\<forall>ev\<in>set evs. (\<exists>dl r. ev = EvReadFrom dl r) \<or> ev = EvSleep 10 \<or> (\<exists>l. ev = EvLog l)"
    using c(4) by (auto simp: collectEvent_iff)
  have "EvSleep 5 \<notin> set evs" using c(4) collectEvent_not_pause by blast
  with c(1,2) quiet have "count_list (trace s) (EvSleep 5) = nat numSends"
    by (simp add: count_withPauses count_list_0_iff)
  with c(1,2,5) segs evs show ?thesis
    unfolding withPauses_def by blast
qed

theorem pause_witness:
  "\<exists>rounds evs.
    trace (snd (Do lan 9 client probe 100 1)) = EvSetDeadline (now lan + 100) None #
      concat (map (\<lambda>round. round @ [EvSleep 5]) rounds) @ evs \<and>
    length rounds = nat 1 \<and>
    (\<forall>round\<in>set rounds.
       (\<forall>ev\<in>set round. (\<exists>ifc r. ev = EvSetMulticastInterface ifc r) \<or>
          (\<exists>via p a n r. ev = EvWriteTo via p a n r)) \<and>
       length (sends round) = length (filter multicastCapable [lo, eth0, wlan0])) \<and>
    (\<forall>ev\<in>set evs. (\<exists>dl r. ev = EvReadFrom dl r) \<or> ev = EvSleep 10 \<or> (\<exists>l. ev = EvLog l)) \<and>
    (0 < (9::nat) \<longrightarrow> (\<exists>dl r rest. evs = EvReadFrom dl r # rest)) \<and>
    count_list (trace (snd (Do lan 9 client probe 100 1))) (EvSleep 5) = nat 1"
proof -
  let ?run = "Do lan 9 client probe 100 1"
  have run: "?run = (fst ?run, snd ?run)" by simp
  have sp: "sendPhase lan client probe 100 1 = (None, snd (sendPhase lan client probe 100 1))"
    using lan_sendPhase by (metis prod.collapse)
  have ifs: "interfaces lan = Inr [lo, eth0, wlan0]" using lan_setup by simp
  show ?thesis by (rule pause_after_every_round [OF sp run ifs])
qed

text \<open>
  The claim as stated has \<open>k - 1\<close> pauses and none after the final round. With one
  round there is one pause, between the last write and the first read.
\<close>

theorem pause_counterexample:
  "count_list (trace (snd (Do lan 9 client probe 100 1))) (EvSleep 5) = 1 \<and>
   count_list (trace (snd (Do lan 9 client probe 100 1))) (EvSleep 5) \<noteq> nat (1 - 1) \<and>
   trace (snd (Do lan 9 client probe 100 1)) ! 4 = EvWriteTo (Some wlan0) probeBytes group 25 None \<and>
   trace (snd (Do lan 9 client probe 100 1)) ! 5 = EvSleep 5 \<and>
   trace (snd (Do lan 9 client probe 100 1)) ! 6 = EvReadFrom (Some 1100) (ReadOK ''HTTP/1.1 200 OK'')"
  by (simp add: lan_trace)

section \<open>No rounds\<close>

lemma sendPhase_no_rounds:
  assumes "k \<le> 0" and "sendPhase env httpu req timeout k = (r, s1)"
  shows "sends (trace s1) = [] \<and>
    (resolveUDPAddr env (Host req) = Inr dest \<and> setDeadline env (now env + timeout) = None \<and>
     interfaces env = Inr ifs \<longrightarrow>
       r = None \<and> trace s1 = [EvSetDeadline (now env + timeout) None])"
  using assms(2)
proof (cases rule: sendPhase_cases)
  case (unresolved err)
  then show ?thesis by (simp add: enter_def)
next
  case (noDeadline err dest)
  then show ?thesis by simp
next
  case (noInterfaces err dest)
  then show ?thesis by simp
next
  case (sending buf dest' ifs' s0)
  from sending(6) assms(1) have "r = None" "s1 = s0"
    by (simp_all add: sendLoop.simps [of _ _ _ _ 0])
  with sending(4) show ?thesis by simp
qed

text \<open>
  C10, as the code has it. With \<^verbatim>\<open>numSends\<close> at most 0 no datagram is written. When
  the address resolves, the deadline can be set and the interfaces can be listed, the
  deadline is set and the read loop runs under it: all that follows on the socket are
  reads with the deadline in force, sleeps of 10 milliseconds and log lines, beginning
  with a read; a read that times out makes \<^verbatim>\<open>Do\<close> return the responses parsed so far
  with a nil error, a nil error is returned in no other way, and a run that has not
  returned has made every read the model allows.
\<close>

theorem no_rounds_still_collects:
  assumes "numSends \<le> 0" and "Do env fuel httpu req timeout numSends = (out, s)"
  shows "sends (trace s) = [] \<and>
    (resolveUDPAddr env (Host req) = Inr dest \<and> setDeadline env (now env + timeout) = None \<and>
     interfaces env = Inr ifs \<longrightarrow>
       (\<exists>evs. trace s = EvSetDeadline (now env + timeout) None # evs \<and>
          (\<forall>ev\<in>set evs. (\<exists>r. ev = EvReadFrom (Some (now env + timeout)) r) \<or>
             ev = EvSleep 10 \<or> (\<exists>l. ev = EvLog l)) \<and>
          (0 < fuel \<longrightarrow> (\<exists>r rest. evs = EvReadFrom (Some (now env + timeout)) r # rest))) \<and>
       (\<forall>i dl tmp m. i < length (trace s) \<and>
          trace s ! i = EvReadFrom dl (ReadErr (NetError True tmp m)) \<longrightarrow>
          out = Some (parsed env req (trace s), None)) \<and>
       (\<forall>rs. out = Some (rs, None) \<longrightarrow>
          rs = parsed env req (trace s) \<and> timeoutRead (last (trace s))) \<and>
       (out = None \<longrightarrow> length (filter isRead (trace s)) = fuel))"
proof -
  from Do_trace_split [OF assms(2)] obtain r s1 evs where
    sp: "sendPhase env httpu req timeout numSends = (r, s1)" and tr: "trace s = trace s1 @ evs"
    and evs: "\<forall>ev\<in>set evs. collectEvent (deadline s1) ev" by blast
  note none = sendPhase_no_rounds [OF assms(1) sp]
  have unsent: "sends (trace s) = []"
    using tr none collectEvent_not_sent [OF evs] by (simp add: sends_append)
  have timeouts: "\<forall>i dl tmp m. i < length (trace s) \<and>
          trace s ! i = EvReadFrom dl (ReadErr (NetError True tmp m)) \<longrightarrow>
          out = Some (parsed env req (trace s), None)"
  proof (intro allI impI)
    fix i dl tmp m
    assume a: "i < length (trace s) \<and> trace s ! i = EvReadFrom dl (ReadErr (NetError True tmp m))"
    then have ends: "terminal (trace s ! i)" by (simp add: terminal_def)
    from terminal_is_last [OF assms(2) _ ends] a
    have lst: "last (trace s) = trace s ! i" and ret: "out \<noteq> None" by simp_all
    from ret obtain rs e where out: "out = Some (rs, e)" by (cases out) auto
    have "e = None"
    proof (cases e)
      case (Some err)
      with Do_terminal [OF assms(2)] out lst a show ?thesis by (auto simp: isFatal_def)
    qed simp
    with Do_terminal [OF assms(2)] out show "out = Some (parsed env req (trace s), None)"
      by simp
  qed
  have nil: "\<forall>rs. out = Some (rs, None) \<longrightarrow>
          rs = parsed env req (trace s) \<and> timeoutRead (last (trace s))"
    using Do_terminal [OF assms(2)] by auto
  have shape: "\<exists>evs. trace s = EvSetDeadline (now env + timeout) None # evs \<and>
          (\<forall>ev\<in>set evs. (\<exists>r. ev = EvReadFrom (Some (now env + timeout)) r) \<or>
             ev = EvSleep 10 \<or> (\<exists>l. ev = EvLog l)) \<and>
          (0 < fuel \<longrightarrow> (\<exists>r rest. evs = EvReadFrom (Some (now env + timeout)) r # rest))"
    if ok: "resolveUDPAddr env (Host req) = Inr dest \<and>
      setDeadline env (now env + timeout) = None \<and> interfaces env = Inr ifs"
  proof -
    from none ok have r: "r = None" and s1: "trace s1 = [EvSetDeadline (now env + timeout) None]"
      by simp_all
    from Do_completed [OF sp [unfolded r] assms(2)] obtain segs evs' where
      c: "trace s = EvSetDeadline (now env + timeout) None # withPauses segs @ evs'"
        "length segs = nat numSends"
        "\<forall>ev\<in>set evs'. collectEvent (Some (now env + timeout)) ev"
        "0 < fuel \<longrightarrow> (\<exists>rd rest. evs' = EvReadFrom (Some (now env + timeout)) rd # rest)"
      by auto
    from c(2) assms(1) have "segs = []" by simp
    with c(1) have "trace s = EvSetDeadline (now env + timeout) None # evs'"
      by (simp add: withPauses_def)
    with c(3,4) show ?thesis by (auto simp: collectEvent_iff)
  qed
  show ?thesis
  proof (intro conjI impI)
    show "sends (trace s) = []" by (rule unsent)
  next
    assume "resolveUDPAddr env (Host req) = Inr dest \<and>
      setDeadline env (now env + timeout) = None \<and> interfaces env = Inr ifs"
    then show "\<exists>evs. trace s = EvSetDeadline (now env + timeout) None # evs \<and>
          (\<forall>ev\<in>set evs. (\<exists>r. ev = EvReadFrom (Some (now env + timeout)) r) \<or>
             ev = EvSleep 10 \<or> (\<exists>l. ev = EvLog l)) \<and>
          (0 < fuel \<longrightarrow> (\<exists>r rest. evs = EvReadFrom (Some (now env + timeout)) r # rest))"
      by (rule shape)
  next
    show "\<forall>i dl tmp m. i < length (trace s) \<and>
          trace s ! i = EvReadFrom dl (ReadErr (NetError True tmp m)) \<longrightarrow>
          out = Some (parsed env req (trace s), None)" by (rule timeouts)
  next
    show "\<forall>rs. out = Some (rs, None) \<longrightarrow>
          rs = parsed env req (trace s) \<and> timeoutRead (last (trace s))" by (rule nil)
  next
    assume "out = None"
    then show "length (filter isRead (trace s)) = fuel"
      using Do_budget assms(2) by blast
  qed
qed

theorem no_rounds_witness:
  "sends (trace (snd (Do lan 9 client probe 100 0))) = [] \<and>
   hd (trace (snd (Do lan 9 client probe 100 0))) = EvSetDeadline 1100 None \<and>
   fst (Do lan 9 client probe 100 0) =
     Some (parsed lan probe (trace (snd (Do lan 9 client probe 100 0))), None) \<and>
   fst (Do lan 9 client probe 100 0) = Some ([Response 200 [] [], Response 404 [] []], None)"
proof -
  let ?run = "Do lan 9 client probe 100 0"
  have run: "?run = (fst ?run, snd ?run)" by simp
  have le: "(0::int) \<le> 0" by simp
  have ev: "7 < length (trace (snd ?run)) \<and>
      trace (snd ?run) ! 7 = EvReadFrom (Some 1100) (ReadErr (NetError True True ''i/o timeout''))"
    by (simp add: lan_no_rounds_trace)
  from no_rounds_still_collects [OF le run, of group "[lo, eth0, wlan0]"] lan_setup
  have "sends (trace (snd ?run)) = []"
    and "\<exists>evs. trace (snd ?run) = EvSetDeadline 1100 None # evs"
    and "\<forall>i dl tmp m. i < length (trace (snd ?run)) \<and>
          trace (snd ?run) ! i = EvReadFrom dl (ReadErr (NetError True tmp m)) \<longrightarrow>
          fst ?run = Some (parsed lan probe (trace (snd ?run)), None)"
    by auto
  with ev lan_no_rounds_result show ?thesis by auto
qed

text \<open>
  The claim as stated, for every call, fails where the address does not resolve:
  \<^verbatim>\<open>Do\<close> returns the resolver's error at line 71, before the deadline is set, and
  the read loop does not run.
\<close>

theorem no_rounds_counterexample:
  "fst (Do noRoute 9 client probe 100 0) =
     Some ([], Some (PlainError ''missing port in address'')) \<and>
   trace (snd (Do noRoute 9 client probe 100 0)) = [] \<and>
   deadline (snd (Do noRoute 9 client probe 100 0)) = connDeadline client"
  by code_simp

end
